theory Spec2Isabelle
  imports Main "HOL-Library.Word" "HOL-Library.AList"
begin

section \<open>JavaScript strings\<close>

text \<open>
  A JavaScript string is a sequence of UTF-16 code units, and \<open>.length\<close>,
  \<open>.substring\<close> and \<open>+\<close> count and cut code units. The literals of
  \<open>functions/upload/index.js\<close> that leave ASCII (the emoji and the CJK title of
  the caption header) are written out as their code units.
\<close>

type_synonym byte = "8 word"
type_synonym jschar = "16 word"
type_synonym jsstring = "jschar list"

definition asc :: "string \<Rightarrow> jsstring" where
  "asc s = map (\<lambda>c. of_char c) s"

definition NL :: jschar where "NL = 0x0A"
definition BACKSLASH :: jschar where "BACKSLASH = 0x5C"
definition BACKTICK :: jschar where "BACKTICK = 0x60"
definition SLASH :: jschar where "SLASH = 0x2F"
definition NUL :: jschar where "NUL = 0"

text \<open>\<open>s.substring(0, n)\<close> for \<open>n \<ge> 0\<close>.\<close>

definition substring0 :: "jsstring \<Rightarrow> nat \<Rightarrow> jsstring" where
  "substring0 s n = take n s"

text \<open>The decimal digits a template literal prints for a non-negative integer.\<close>

function dec :: "nat \<Rightarrow> jsstring" where
  "dec n = (if n < 10 then [of_nat (48 + n)] else dec (n div 10) @ [of_nat (48 + n mod 10)])"
  by pat_completeness auto
termination
  by (relation "measure id") auto

declare dec.simps [simp del]

section \<open>The caption and the full text of \<open>extractAIPrompt\<close>\<close>

text \<open>
  \<open>headerStr\<close>: two emoji (two code units each), \<open> *Elin\'s \<close>, three CJK
  characters, \<open>* \<close>, two emoji, two line feeds: 25 code units.
\<close>

definition headerStr :: jsstring where
  "headerStr = [0xD83D, 0xDC95, 0xD83C, 0xDF38] @ asc '' *Elin'' @ [BACKSLASH, 0x27] @ asc ''s ''
     @ [0x5492, 0x8BED, 0x5361] @ asc ''* '' @ [0xD83C, 0xDF38, 0xD83D, 0xDC95] @ [NL, NL]"

text \<open>
  \<open>escapeMd\<close> on a string: the global replace of
  \<open>/[_*[\]()~>#\+\-=|{}.!]/g\<close> by \<open>\\$&\<close> puts a backslash before each of the
  seventeen characters of the class.
\<close>

definition md_special :: "jschar set" where
  "md_special = set (asc ''_*[]()~>#+-=|{}.!'')"

definition escape_chars :: "jsstring \<Rightarrow> jsstring" where
  "escape_chars s = concat (map (\<lambda>c. if c \<in> md_special then [BACKSLASH, c] else [c]) s)"

text \<open>\<open>footerStr\<close>, from the three escaped fields.\<close>

definition footerStr :: "jsstring \<Rightarrow> jsstring \<Rightarrow> jsstring \<Rightarrow> jsstring" where
  "footerStr samplerStr stepsStr seedStr =
     [0xD83E, 0xDDEA] @ asc '' *Sampler*: '' @ samplerStr @ [NL]
     @ [0xD83D, 0xDD22] @ asc '' *Steps*: '' @ stepsStr @ asc ''  ''
     @ [0xD83C, 0xDFB2] @ asc '' *Seed*: '' @ seedStr"

definition fence_open :: jsstring where
  "fence_open = [NL, BACKTICK, BACKTICK, BACKTICK, NL]"

definition fence_close :: jsstring where
  "fence_close = [NL, BACKTICK, BACKTICK, BACKTICK, NL, NL]"

definition more_marker :: jsstring where
  "more_marker = asc ''...and more characters''"

definition ellipsis :: jsstring where
  "ellipsis = asc ''...''"

text \<open>One character block of the full text (\<open>char.substring(0, 500)\<close>).\<close>

definition full_char_block :: "nat \<Rightarrow> jsstring \<Rightarrow> jsstring" where
  "full_char_block idx c =
     [0xD83D, 0xDC64] @ asc '' *Character '' @ dec (idx + 1) @ asc ''*'' @ fence_open
     @ substring0 c 500 @ fence_close"

text \<open>One iteration of the \<open>forEach\<close> that prints the preview's characters.\<close>

definition preview_char_block :: "nat \<Rightarrow> jsstring \<Rightarrow> jsstring" where
  "preview_char_block idx c =
     (if c = more_marker
      then [0xD83D, 0xDC64] @ asc '' *More Characters* omitted in preview.'' @ [NL, NL]
      else [0xD83D, 0xDC64] @ asc '' *Character '' @ dec (idx + 1) @ asc ''*'' @ fence_open
           @ c @ fence_close)"

definition fullText_of :: "jsstring \<Rightarrow> jsstring \<Rightarrow> jsstring \<Rightarrow> jsstring list \<Rightarrow> jsstring" where
  "fullText_of footer rawPrompt rawUc rawChars =
     headerStr
     @ [0x2728] @ asc '' *Full Prompt*'' @ fence_open @ substring0 rawPrompt 1500 @ fence_close
     @ concat (map (\<lambda>(idx, c). full_char_block idx c) (enumerate 0 rawChars))
     @ (if rawUc \<noteq> []
        then [0x274C] @ asc '' *Negative*'' @ fence_open @ substring0 rawUc 800 @ fence_close
        else [])
     @ footer"

text \<open>The concatenation under \<open>// Preview Caption\<close>.\<close>

definition assemble_caption ::
  "jsstring \<Rightarrow> jsstring \<Rightarrow> jsstring list \<Rightarrow> jsstring \<Rightarrow> jsstring" where
  "assemble_caption footer previewPrompt previewChars previewUc =
     headerStr
     @ [0x2728] @ asc '' *Prompt*'' @ fence_open @ previewPrompt @ fence_close
     @ concat (map (\<lambda>(idx, c). preview_char_block idx c) (enumerate 0 previewChars))
     @ (if previewUc \<noteq> []
        then [0x274C] @ asc '' *Negative*'' @ fence_open @ previewUc @ fence_close
        else [])
     @ footer"

definition MAX_CAPTION :: int where "MAX_CAPTION = 1024"

definition availableChars :: "jsstring \<Rightarrow> int" where
  "availableChars footer =
     (let structureCost = int (length headerStr) + int (length footer) + 80;
          available = MAX_CAPTION - structureCost
      in if available < 200 then 200 else available)"

definition totalLen :: "jsstring \<Rightarrow> jsstring \<Rightarrow> jsstring list \<Rightarrow> nat" where
  "totalLen rawPrompt rawUc rawChars =
     length rawPrompt + foldl (\<lambda>sum c. sum + length c) 0 rawChars + length rawUc"

definition isTruncated :: "jsstring \<Rightarrow> jsstring \<Rightarrow> jsstring \<Rightarrow> jsstring list \<Rightarrow> bool" where
  "isTruncated footer rawPrompt rawUc rawChars \<longleftrightarrow>
     int (totalLen rawPrompt rawUc rawChars) > availableChars footer"

definition shorten_uc :: "jsstring \<Rightarrow> jsstring" where
  "shorten_uc u = (if length u > 50 then substring0 u 50 @ ellipsis else u)"

definition shorten_chars :: "jsstring list \<Rightarrow> jsstring list" where
  "shorten_chars rawChars =
     (let previewChars =
            map (\<lambda>c. if length c > 80 then substring0 c 80 @ ellipsis else c) (take 3 rawChars)
      in if length rawChars > 3 then previewChars @ [more_marker] else previewChars)"

definition shorten_prompt :: "int \<Rightarrow> jsstring \<Rightarrow> jsstring" where
  "shorten_prompt remaining p =
     (if int (length p) > remaining \<and> remaining > 0
      then substring0 p (nat remaining) @ ellipsis else p)"

definition caption_of :: "jsstring \<Rightarrow> jsstring \<Rightarrow> jsstring \<Rightarrow> jsstring list \<Rightarrow> jsstring" where
  "caption_of footer rawPrompt rawUc rawChars =
     (if isTruncated footer rawPrompt rawUc rawChars
      then
        let previewUc = shorten_uc rawUc;
            previewChars = shorten_chars rawChars;
            currentCharsLen = foldl (\<lambda>sum c. sum + length c + 30) 0 previewChars;
            used = length previewUc + currentCharsLen;
            remaining = availableChars footer - int used;
            previewPrompt = shorten_prompt remaining rawPrompt
        in assemble_caption footer previewPrompt previewChars previewUc
      else assemble_caption footer rawPrompt rawChars rawUc)"

record rendered =
  caption :: jsstring
  fullText :: jsstring
  needsSecondMessage :: bool

definition render_strings ::
  "jsstring \<Rightarrow> jsstring \<Rightarrow> jsstring \<Rightarrow> jsstring list \<Rightarrow> rendered" where
  "render_strings footer rawPrompt rawUc rawChars =
     \<lparr> caption = caption_of footer rawPrompt rawUc rawChars,
       fullText = fullText_of footer rawPrompt rawUc rawChars,
       needsSecondMessage = isTruncated footer rawPrompt rawUc rawChars \<rparr>"

section \<open>JavaScript values\<close>

text \<open>
  The values \<open>JSON.parse\<close> can return, and \<open>undefined\<close>, which a read of a
  missing property gives. Numbers stay abstract (\<open>'n\<close>): the extractor only tests
  them for truthiness and prints them. An object is the list of its own properties,
  looked up by key.
\<close>

datatype 'n jsval =
    JUndefined
  | JNull
  | JBool bool
  | JNum 'n
  | JStr jsstring
  | JArr "'n jsval list"
  | JObj "(jsstring \<times> 'n jsval) list"

datatype js_error = TypeError | RangeError | SyntaxError | JsError jsstring

datatype 'a outcome = Returned 'a | Thrown js_error

text \<open>
  The built-ins of the runtime that the extractor calls and that are no code of the
  repository: \<open>TextDecoder.decode\<close>, \<open>JSON.parse\<close> (\<open>None\<close> when it throws a
  SyntaxError), and the truthiness and the printing of a number.
\<close>

record 'n platform =
  text_decode :: "byte list \<Rightarrow> jsstring"
  json_parse :: "jsstring \<Rightarrow> 'n jsval option"
  num_truthy :: "'n \<Rightarrow> bool"
  num_to_string :: "'n \<Rightarrow> jsstring"

fun truthy :: "'n platform \<Rightarrow> 'n jsval \<Rightarrow> bool" where
  "truthy P JUndefined = False"
| "truthy P JNull = False"
| "truthy P (JBool b) = b"
| "truthy P (JNum n) = num_truthy P n"
| "truthy P (JStr s) = (s \<noteq> [])"
| "truthy P (JArr xs) = True"
| "truthy P (JObj kvs) = True"

text \<open>\<open>a || b\<close>.\<close>

definition js_or :: "'n platform \<Rightarrow> 'n jsval \<Rightarrow> 'n jsval \<Rightarrow> 'n jsval" where
  "js_or P a b = (if truthy P a then a else b)"

definition nullish :: "'n jsval \<Rightarrow> bool" where
  "nullish v = (case v of JUndefined \<Rightarrow> True | JNull \<Rightarrow> True | _ \<Rightarrow> False)"

text \<open>
  \<open>v.k\<close> on a receiver that is neither \<open>null\<close> nor \<open>undefined\<close> (on those the
  read throws a TypeError, which the callers test with \<open>nullish\<close> first). An object
  made by \<open>JSON.parse\<close> has its keys as own properties; the keys read here are on no
  prototype, so every other receiver gives \<open>undefined\<close>.
\<close>

definition prop_of :: "'n jsval \<Rightarrow> jsstring \<Rightarrow> 'n jsval" where
  "prop_of v k =
     (case v of
        JObj kvs \<Rightarrow> (case map_of kvs k of Some x \<Rightarrow> x | None \<Rightarrow> JUndefined)
      | _ \<Rightarrow> JUndefined)"

fun join_comma :: "jsstring list \<Rightarrow> jsstring" where
  "join_comma [] = []"
| "join_comma [s] = s"
| "join_comma (s # t # ss) = s @ asc '','' @ join_comma (t # ss)"

text \<open>
  \<open>String(v)\<close>; \<open>None\<close> when the conversion throws a TypeError: an object parsed
  from JSON that has a key \<open>toString\<close> holds a value there that cannot be called, and
  no \<open>valueOf\<close> gives a primitive. An array prints its elements joined by commas,
  \<open>null\<close> and \<open>undefined\<close> as the empty string.
\<close>

fun js_String :: "'n platform \<Rightarrow> 'n jsval \<Rightarrow> jsstring option" where
  "js_String P JUndefined = Some (asc ''undefined'')"
| "js_String P JNull = Some (asc ''null'')"
| "js_String P (JBool b) = Some (if b then asc ''true'' else asc ''false'')"
| "js_String P (JNum n) = Some (num_to_string P n)"
| "js_String P (JStr s) = Some s"
| "js_String P (JArr xs) =
     map_option join_comma
       (those (map (\<lambda>x. if nullish x then Some [] else js_String P x) xs))"
| "js_String P (JObj kvs) =
     (if asc ''toString'' \<in> fst ` set kvs then None else Some (asc ''[object Object]''))"

text \<open>\<open>escapeMd\<close>.\<close>

definition escapeMd :: "'n platform \<Rightarrow> 'n jsval \<Rightarrow> jsstring option" where
  "escapeMd P v =
     (if \<not> truthy P v then Some (asc ''N/A'')
      else map_option escape_chars (js_String P v))"

section \<open>The chunk walk of \<open>extractAIPrompt\<close>\<close>

record 'n info =
  prompt :: "'n jsval"
  uc :: "'n jsval"
  steps :: "'n jsval"
  seed :: "'n jsval"
  sampler :: "'n jsval"
  chars :: "'n jsval list"

definition info0 :: "'n info" where
  "info0 = \<lparr> prompt = JStr [], uc = JStr [], steps = JStr [], seed = JStr [],
             sampler = JStr [], chars = [] \<rparr>"

text \<open>\<open>uint8.slice(a, b)\<close> for \<open>a \<le> b\<close>: both ends are clamped to the buffer.\<close>

definition bslice :: "'a list \<Rightarrow> nat \<Rightarrow> nat \<Rightarrow> 'a list" where
  "bslice bs a b = take (b - a) (drop a bs)"

text \<open>\<open>view.getUint32(offset)\<close>: big-endian, a RangeError outside the buffer.\<close>

definition getUint32 :: "byte list \<Rightarrow> nat \<Rightarrow> js_error + nat" where
  "getUint32 bs off =
     (if off + 4 \<le> length bs
      then Inr (((unat (bs ! off) * 256 + unat (bs ! (off + 1))) * 256
                 + unat (bs ! (off + 2))) * 256 + unat (bs ! (off + 3)))
      else Inl RangeError)"

text \<open>\<open>s.split(c)\<close> for a separator of one code unit: never an empty array.\<close>

fun js_split :: "'a \<Rightarrow> 'a list \<Rightarrow> 'a list list" where
  "js_split sep [] = [[]]"
| "js_split sep (x # xs) =
     (if x = sep then [] # js_split sep xs
      else (case js_split sep xs of [] \<Rightarrow> [[x]] | p # ps \<Rightarrow> (x # p) # ps))"

fun starts_with :: "'a list \<Rightarrow> 'a list \<Rightarrow> bool" where
  "starts_with s [] = True"
| "starts_with [] (y # ys) = False"
| "starts_with (x # xs) (y # ys) = (x = y \<and> starts_with xs ys)"

text \<open>\<open>s.includes(t)\<close>.\<close>

fun js_includes :: "'a list \<Rightarrow> 'a list \<Rightarrow> bool" where
  "js_includes [] t = (t = [])"
| "js_includes (x # xs) t = (starts_with (x # xs) t \<or> js_includes xs t)"

text \<open>
  The \<open>try\<close> block of the \<open>Comment\<close> key. It assigns to \<open>info\<close> field by field, so
  what it has assigned stays when a later statement throws: the result is the record
  as the block left it, and the error if it threw. \<open>json.uc\<close> throws on \<open>null\<close>;
  \<open>c.prompt\<close> throws on a \<open>null\<close> element, before \<open>info.chars\<close> is assigned.
\<close>

definition comment_try ::
  "'n platform \<Rightarrow> jsstring \<Rightarrow> 'n info \<Rightarrow> 'n info \<times> js_error option" where
  "comment_try P val nfo =
     (case json_parse P val of
        None \<Rightarrow> (nfo, Some SyntaxError)
      | Some json \<Rightarrow>
          if nullish json then (nfo, Some TypeError)
          else
            let nfo1 = nfo
                  \<lparr> uc := js_or P (js_or P (prop_of json (asc ''uc''))
                                    (prop_of json (asc ''negative_prompt''))) (JStr []),
                    steps := js_or P (prop_of json (asc ''steps'')) (JStr []),
                    seed := js_or P (prop_of json (asc ''seed'')) (JStr []),
                    sampler := js_or P (js_or P (prop_of json (asc ''sampler''))
                                    (prop_of json (asc ''sampler_name''))) (JStr (asc ''N/A'')) \<rparr>;
                nfo2 = (if truthy P (prop_of json (asc ''prompt''))
                        then nfo1 \<lparr> prompt := prop_of json (asc ''prompt'') \<rparr> else nfo1);
                cs = js_or P (js_or P (prop_of json (asc ''characterPrompts''))
                                (prop_of json (asc ''character_prompts''))) (JArr [])
            in (case cs of
                  JArr xs \<Rightarrow>
                    if list_ex nullish xs then (nfo2, Some TypeError)
                    else (nfo2 \<lparr> chars :=
                            filter (truthy P) (map (\<lambda>c. js_or P (prop_of c (asc ''prompt'')) c) xs) \<rparr>,
                          None)
                | _ \<Rightarrow> (nfo2, None)))"

text \<open>The \<open>Comment\<close> branch with its \<open>catch\<close>.\<close>

definition comment_step ::
  "'n platform \<Rightarrow> jsstring \<Rightarrow> 'n info \<times> bool \<Rightarrow> 'n info \<times> bool" where
  "comment_step P val st =
     (case comment_try P val (fst st) of
        (nfo', None) \<Rightarrow> (nfo', True)
      | (nfo', Some e) \<Rightarrow>
          if js_includes val (asc ''masterpiece'')
          then (nfo' \<lparr> prompt := JStr val \<rparr>, True)
          else (nfo', snd st))"

text \<open>
  What the body of the \<open>if (type === 'tEXt' || type === 'iTXt')\<close> does with the
  decoded payload: \<open>key\<close> is the first field of the split at code unit 0 and
  \<open>value\<close> the last one.
\<close>

definition text_key :: "jsstring \<Rightarrow> jsstring" where
  "text_key textData = hd (js_split NUL textData)"

definition text_value :: "jsstring \<Rightarrow> jsstring" where
  "text_value textData =
     (let parts = js_split NUL textData;
          v = parts ! (length parts - 1)
      in if v \<noteq> [] then v else [])"

definition text_chunk ::
  "'n platform \<Rightarrow> jsstring \<Rightarrow> 'n info \<times> bool \<Rightarrow> 'n info \<times> bool" where
  "text_chunk P textData st =
     (let key = text_key textData; val = text_value textData
      in if key = asc ''Description'' then ((fst st) \<lparr> prompt := JStr val \<rparr>, True)
         else if key = asc ''Comment'' then comment_step P val st
         else st)"

definition is_text_type :: "jsstring \<Rightarrow> bool" where
  "is_text_type ty \<longleftrightarrow> ty = asc ''tEXt'' \<or> ty = asc ''iTXt''"

text \<open>One iteration of the loop, for the chunk at \<open>off\<close> with declared length \<open>len\<close>.\<close>

definition chunk_step ::
  "'n platform \<Rightarrow> byte list \<Rightarrow> nat \<Rightarrow> nat \<Rightarrow> 'n info \<times> bool \<Rightarrow> 'n info \<times> bool" where
  "chunk_step P bs off len st =
     (if is_text_type (text_decode P (bslice bs (off + 4) (off + 8)))
      then text_chunk P (text_decode P (bslice bs (off + 8) (off + 8 + len))) st
      else st)"

text \<open>
  The loop \<open>while (offset < uint8.length - 8)\<close>; the state is \<open>info\<close> and
  \<open>found\<close>. The offset grows by at least 12 in every iteration.
\<close>

function walk ::
  "'n platform \<Rightarrow> byte list \<Rightarrow> nat \<Rightarrow> 'n info \<times> bool \<Rightarrow> js_error + ('n info \<times> bool)" where
  "walk P bs off st =
     (if int off < int (length bs) - 8
      then (case getUint32 bs off of
              Inl e \<Rightarrow> Inl e
            | Inr len \<Rightarrow> walk P bs (off + (12 + len)) (chunk_step P bs off len st))
      else Inr st)"
  by pat_completeness auto
termination
  by (relation "measure (\<lambda>(P, bs, off, st). length bs - off)") auto

declare walk.simps [simp del]

text \<open>
  The part under \<open>if (found)\<close>. \<open>substring\<close> exists on strings only, so the full
  text throws a TypeError when the prompt, a character prompt or a truthy negative
  prompt is no string; past it all of them are strings.
\<close>

definition as_string :: "'n jsval \<Rightarrow> jsstring option" where
  "as_string v = (case v of JStr s \<Rightarrow> Some s | _ \<Rightarrow> None)"

definition render :: "'n platform \<Rightarrow> 'n info \<Rightarrow> js_error + rendered" where
  "render P nfo =
     (case (escapeMd P (js_or P (sampler nfo) (JStr (asc ''N/A''))),
            escapeMd P (js_or P (steps nfo) (JStr (asc ''N/A''))),
            escapeMd P (js_or P (seed nfo) (JStr (asc ''N/A'')))) of
        (Some samplerStr, Some stepsStr, Some seedStr) \<Rightarrow>
          (case (as_string (js_or P (prompt nfo) (JStr [])),
                 as_string (js_or P (uc nfo) (JStr [])),
                 those (map as_string (chars nfo))) of
             (Some rawPrompt, Some rawUc, Some rawChars) \<Rightarrow>
               Inr (render_strings (footerStr samplerStr stepsStr seedStr)
                      rawPrompt rawUc rawChars)
           | _ \<Rightarrow> Inl TypeError)
      | _ \<Rightarrow> Inl TypeError)"

text \<open>The \<open>try\<close> block of \<open>extractAIPrompt\<close>, on the bytes of the slice.\<close>

definition extract_body :: "'n platform \<Rightarrow> byte list \<Rightarrow> js_error + rendered option" where
  "extract_body P header =
     (case walk P header 8 (info0, False) of
        Inl e \<Rightarrow> Inl e
      | Inr (nfo, found) \<Rightarrow>
          if found then (case render P nfo of Inl e \<Rightarrow> Inl e | Inr r \<Rightarrow> Inr (Some r))
          else Inr None)"

record upfile =
  file_type :: jsstring
  file_bytes :: "byte list"

text \<open>A read of the file: \<open>file.slice(from, to).arrayBuffer()\<close>.\<close>

datatype read_event = Slice nat nat

text \<open>
  \<open>extractAIPrompt\<close>: the reads it made of the file, and how it ended. The
  \<open>catch\<close> turns every error of the body into \<open>null\<close>.
\<close>

definition extractAIPrompt ::
  "'n platform \<Rightarrow> upfile \<Rightarrow> read_event list \<times> rendered option outcome" where
  "extractAIPrompt P file =
     (if file_type file \<noteq> asc ''image/png'' then ([], Returned None)
      else ([Slice 0 262144],
            (case extract_body P (bslice (file_bytes file) 0 262144) of
               Inl e \<Rightarrow> Returned None
             | Inr r \<Rightarrow> Returned r)))"

text \<open>
  The chunks of a whole file, for stating where they begin: from an offset, every
  position at which the eight bytes of a chunk header (length and type) lie inside the
  file, each followed by the next one \<open>12 + length\<close> bytes further.
\<close>

function chunk_starts :: "byte list \<Rightarrow> nat \<Rightarrow> nat list" where
  "chunk_starts bs off =
     (if off + 8 \<le> length bs
      then (case getUint32 bs off of
              Inl e \<Rightarrow> []
            | Inr len \<Rightarrow> off # chunk_starts bs (off + (12 + len)))
      else [])"
  by pat_completeness auto
termination
  by (relation "measure (\<lambda>(bs, off). length bs - off)") auto

declare chunk_starts.simps [simp del]

section \<open>The upload request\<close>

text \<open>
  \<open>uploadChannel\<close> only ever holds one of six string literals; they are the
  constructors here, and \<open>channel_name\<close> gives the string back where the source
  builds a key or a message from it.
\<close>

datatype channel = CloudflareR2 | TelegramNew | S3 | HuggingFace | Discord | External

fun channel_name :: "channel \<Rightarrow> jsstring" where
  "channel_name CloudflareR2 = asc ''CloudflareR2''"
| "channel_name TelegramNew = asc ''TelegramNew''"
| "channel_name S3 = asc ''S3''"
| "channel_name HuggingFace = asc ''HuggingFace''"
| "channel_name Discord = asc ''Discord''"
| "channel_name External = asc ''External''"

text \<open>The \<open>switch\<close> over the query parameter \<open>uploadChannel\<close> (\<open>None\<close>: absent).\<close>

definition select_channel :: "jsstring option \<Rightarrow> channel" where
  "select_channel urlParamUploadChannel =
     (if urlParamUploadChannel = Some (asc ''telegram'') then TelegramNew
      else if urlParamUploadChannel = Some (asc ''cfr2'') then CloudflareR2
      else if urlParamUploadChannel = Some (asc ''s3'') then S3
      else if urlParamUploadChannel = Some (asc ''discord'') then Discord
      else if urlParamUploadChannel = Some (asc ''huggingface'') then HuggingFace
      else if urlParamUploadChannel = Some (asc ''external'') then External
      else TelegramNew)"

text \<open>\<open>parts.join('/')\<close>.\<close>

fun join_slash :: "jsstring list \<Rightarrow> jsstring" where
  "join_slash [] = []"
| "join_slash [s] = s"
| "join_slash (s # t # ss) = s @ [SLASH] @ join_slash (t # ss)"

text \<open>
  The folder: the query parameter \<open>uploadFolder\<close>, or, when it is absent or empty,
  \<open>fileName.split('/').slice(0, -1).join('/')\<close>.
\<close>

definition upload_folder :: "jsstring option \<Rightarrow> jsstring \<Rightarrow> jsstring" where
  "upload_folder q fileName =
     (let uploadFolder = (case q of None \<Rightarrow> [] | Some s \<Rightarrow> s)
      in if uploadFolder = [] then join_slash (butlast (js_split SLASH fileName))
         else uploadFolder)"

text \<open>\<open>.replace(/^\/+/, '')\<close>.\<close>

definition strip_leading_slashes :: "jsstring \<Rightarrow> jsstring" where
  "strip_leading_slashes s = dropWhile (\<lambda>c. c = SLASH) s"

text \<open>\<open>.replace(/\/{2,}/g, '/')\<close>: every run of two or more slashes becomes one.\<close>

fun collapse_slashes :: "jsstring \<Rightarrow> jsstring" where
  "collapse_slashes (x # y # r) =
     (if x = SLASH \<and> y = SLASH then collapse_slashes (y # r) else x # collapse_slashes (y # r))"
| "collapse_slashes s = s"

text \<open>\<open>.replace(/\/$/, '')\<close>: one slash at the very end is removed.\<close>

definition strip_trailing_slash :: "jsstring \<Rightarrow> jsstring" where
  "strip_trailing_slash s = (if s \<noteq> [] \<and> last s = SLASH then butlast s else s)"

definition normalizedFolder :: "jsstring \<Rightarrow> jsstring" where
  "normalizedFolder uploadFolder =
     (if uploadFolder \<noteq> []
      then strip_trailing_slash (collapse_slashes (strip_leading_slashes uploadFolder))
      else [])"

text \<open>No two slashes next to each other.\<close>

fun no_double_slash :: "jsstring \<Rightarrow> bool" where
  "no_double_slash (x # y # r) = (\<not> (x = SLASH \<and> y = SLASH) \<and> no_double_slash (y # r))"
| "no_double_slash s = True"

text \<open>The \<open>Directory\<close> field of \<open>metadata\<close>.\<close>

definition directory_of :: "jsstring \<Rightarrow> jsstring" where
  "directory_of uploadFolder =
     (if normalizedFolder uploadFolder = [] then [] else normalizedFolder uploadFolder @ [SLASH])"

text \<open>
  \<open>metadata\<close>: the fields \<open>processFileUpload\<close> fills from the request, and the
  ones \<open>uploadFileToDiscord\<close> adds. The address, the time stamp, the size in MB and
  the dimensions come from collaborators outside this file and are left out.
\<close>

record metadata =
  FileName :: jsstring
  FileType :: jsstring
  FileSizeBytes :: nat
  ListType :: jsstring
  Directory :: jsstring
  Tags :: "jsstring list"
  Channel :: "jsstring option"
  ChannelName :: "jsstring option"
  FileSize :: "jsstring option"
  DiscordMessageId :: "jsstring option"
  DiscordChannelId :: "jsstring option"
  DiscordBotToken :: "jsstring option"
  DiscordProxyUrl :: "jsstring option"
  Label :: "jsstring option"

text \<open>
  A response made by \<open>createResponse(body, { status })\<close>. The body is a text;
  \<open>Json_object m\<close> stands for the text \<open>JSON.stringify(m)\<close> of an object
  \<open>m\<close> with string values, its keys in insertion order. \<open>res.text()\<close> reads
  the body back, through \<open>JSON.stringify\<close> (a parameter) for such an object.
\<close>

datatype body = Text jsstring | Json_object "(jsstring \<times> jsstring) list"

record response =
  status :: nat
  body :: body

definition res_text :: "((jsstring \<times> jsstring) list \<Rightarrow> jsstring) \<Rightarrow> response \<Rightarrow> jsstring" where
  "res_text stringify res = (case body res of Text s \<Rightarrow> s | Json_object m \<Rightarrow> stringify m)"

text \<open>
  \<open>context\<close> as the upload functions see it: the query parameter
  \<open>serverCompress\<close>, and \<open>world\<close> for the rest (configuration, form data, the
  backends and the database).
\<close>

record 'w ctx =
  serverCompress :: "jsstring option"
  world :: 'w

text \<open>
  The five upload functions that can fail over and \<open>uploadFileToExternal\<close>, as one
  function of the family: it returns a response or throws, and may change the
  context and the metadata object it is handed.
\<close>

type_synonym 'w uploader =
  "channel \<Rightarrow> 'w ctx \<Rightarrow> metadata \<Rightarrow> (js_error + response) \<times> 'w ctx \<times> metadata"

text \<open>
  One call of an upload function, written to a log the upload functions do not see:
  the family, \<open>serverCompress\<close> as it stood at the call, and how the call ended.
\<close>

datatype call = Call (call_channel: channel) (call_compress: "jsstring option")
  (call_result: "js_error + response")

record 'w state =
  ctx :: "'w ctx"
  metadata :: metadata
  calls :: "call list"

definition attempt ::
  "'w uploader \<Rightarrow> channel \<Rightarrow> 'w state \<Rightarrow> (js_error + response) \<times> 'w state" where
  "attempt up ch st =
     (case up ch (ctx st) (metadata st) of
        (r, c', md') \<Rightarrow>
          (r, \<lparr> ctx = c', metadata = md',
                calls = calls st @ [Call ch (serverCompress (ctx st)) r] \<rparr>))"

text \<open>\<open>res.status === 200\<close> on what a call gave; a call that threw gave no response.\<close>

definition is_success :: "js_error + response \<Rightarrow> bool" where
  "is_success r = (case r of Inl e \<Rightarrow> False | Inr res \<Rightarrow> status res = 200)"

definition is_failure :: "js_error + response \<Rightarrow> bool" where
  "is_failure r = (case r of Inl e \<Rightarrow> False | Inr res \<Rightarrow> status res \<noteq> 200)"

section \<open>\<open>tryRetry\<close>\<close>

definition channelList :: "channel list" where
  "channelList = [CloudflareR2, TelegramNew, S3, HuggingFace, Discord]"

text \<open>
  The \<open>if\<close>/\<open>else if\<close> chains of \<open>tryRetry\<close> compare with five names; for any
  other value no upload function is called and the result stays \<open>null\<close>.
\<close>

definition has_uploader :: "channel \<Rightarrow> bool" where
  "has_uploader ch \<longleftrightarrow>
     ch = CloudflareR2 \<or> ch = TelegramNew \<or> ch = S3 \<or> ch = HuggingFace \<or> ch = Discord"

text \<open>
  The \<open>for\<close> loop over \<open>channelList\<close>, from the entries still to visit.
  \<open>errMessages\<close> is an object: its keys in insertion order, a second assignment to
  a key replacing the value. \<open>stringify\<close> is \<open>JSON.stringify\<close>, which
  \<open>res.text()\<close> needs.
\<close>

fun failover ::
  "'w uploader \<Rightarrow> ((jsstring \<times> jsstring) list \<Rightarrow> jsstring) \<Rightarrow> channel \<Rightarrow> channel list \<Rightarrow>
   (jsstring \<times> jsstring) list \<Rightarrow> 'w state \<Rightarrow> (js_error + response) \<times> 'w state" where
  "failover up stringify uploadChannel [] errMessages st =
     (Inr \<lparr> status = 500, body = Json_object errMessages \<rparr>, st)"
| "failover up stringify uploadChannel (ch # rest) errMessages st =
     (if ch \<noteq> uploadChannel
      then
        if has_uploader ch
        then (case attempt up ch st of
                (Inl e, st') \<Rightarrow> (Inl e, st')
              | (Inr res, st') \<Rightarrow>
                  if status res = 200 then (Inr res, st')
                  else failover up stringify uploadChannel rest
                         (AList.update (channel_name ch)
                            (asc ''Error: '' @ channel_name ch @ res_text stringify res) errMessages) st')
        else failover up stringify uploadChannel rest errMessages st
      else failover up stringify uploadChannel rest errMessages st)"

definition tryRetry ::
  "'w uploader \<Rightarrow> ((jsstring \<times> jsstring) list \<Rightarrow> jsstring) \<Rightarrow> jsstring \<Rightarrow> channel \<Rightarrow>
   'w state \<Rightarrow> (js_error + response) \<times> 'w state" where
  "tryRetry up stringify err uploadChannel st =
     (let errMessages = AList.update (channel_name uploadChannel)
                          (asc ''Error: '' @ channel_name uploadChannel @ err) [];
          st1 = st \<lparr> ctx := (ctx st) \<lparr> serverCompress := Some (asc ''false'') \<rparr> \<rparr>
      in if has_uploader uploadChannel
         then (case attempt up uploadChannel st1 of
                 (Inl e, st2) \<Rightarrow> (Inl e, st2)
               | (Inr retryRes, st2) \<Rightarrow>
                   if status retryRes = 200 then (Inr retryRes, st2)
                   else failover up stringify uploadChannel channelList
                          (AList.update (channel_name uploadChannel @ asc ''_retry'')
                             (asc ''Error: '' @ channel_name uploadChannel @ asc '' retry - ''
                              @ res_text stringify retryRes) errMessages) st2)
         else failover up stringify uploadChannel channelList errMessages st1)"

text \<open>
  The entries of the list that the loop calls an upload function for: those other than
  the original channel (all five have an upload function).
\<close>

definition eligible :: "channel \<Rightarrow> channel list \<Rightarrow> channel list" where
  "eligible ch chs = filter (\<lambda>x. x \<noteq> ch \<and> has_uploader x) chs"

text \<open>
  The trial order in the words of the specification, to compare \<open>tryRetry\<close> with:
  the families of a list are tried one after the other, each once, every call made by
  \<open>up\<close> on the context and metadata the call before left, and the trial stops after
  the first call that does not return a failure response.
\<close>

fun trial_run ::
  "'w uploader \<Rightarrow> channel list \<Rightarrow> 'w ctx \<Rightarrow> metadata \<Rightarrow> call list \<times> 'w ctx \<times> metadata" where
  "trial_run up [] c md = ([], c, md)"
| "trial_run up (ch # rest) c md =
     (case up ch c md of
        (r, c', md') \<Rightarrow>
          if is_failure r
          then (case trial_run up rest c' md' of
                  (cs, c'', md'') \<Rightarrow> (Call ch (serverCompress c) r # cs, c'', md''))
          else ([Call ch (serverCompress c) r], c', md'))"

section \<open>\<open>processFileUpload\<close>\<close>

text \<open>The file of the form data: \<open>None\<close> where a field is \<open>null\<close> or \<open>undefined\<close>.\<close>

record form_file =
  f_type :: "jsstring option"
  f_name :: "jsstring option"
  f_size :: nat

record request =
  q_uploadChannel :: "jsstring option"
  q_uploadFolder :: "jsstring option"
  q_autoRetry :: "jsstring option"
  q_serverCompress :: "jsstring option"
  form_file :: "form_file option"

definition initial_metadata :: "request \<Rightarrow> jsstring \<Rightarrow> jsstring \<Rightarrow> nat \<Rightarrow> metadata" where
  "initial_metadata req fileName fileType fileSizeBytes =
     \<lparr> FileName = fileName, FileType = fileType, FileSizeBytes = fileSizeBytes,
       ListType = asc ''None'',
       Directory = directory_of (upload_folder (q_uploadFolder req) fileName),
       Tags = [], Channel = None, ChannelName = None, FileSize = None,
       DiscordMessageId = None, DiscordChannelId = None, DiscordBotToken = None,
       DiscordProxyUrl = None, Label = None \<rparr>"

text \<open>
  \<open>processFileUpload\<close>: the channel, the check of the file's fields, the metadata,
  the first upload and, when it fails and \<open>autoRetry\<close> is not \<open>'false'\<close>,
  \<open>tryRetry\<close>. The external channel returns whatever its upload returns. A form
  without a file makes \<open>file.type\<close> throw. The result is the response (or the
  error thrown), the context at the end, and the calls of upload functions made.
  What the function computes in between with collaborators from other files (the
  address of the uploader, the image dimensions, the extension and the file id) only
  feeds the upload functions and is part of \<open>world\<close>; those calls are taken to
  return.
\<close>

definition processFileUpload ::
  "'w uploader \<Rightarrow> ((jsstring \<times> jsstring) list \<Rightarrow> jsstring) \<Rightarrow> request \<Rightarrow> 'w \<Rightarrow>
   (js_error + response) \<times> 'w ctx \<times> call list" where
  "processFileUpload up stringify req w =
     (let uploadChannel = select_channel (q_uploadChannel req);
          c0 = \<lparr> serverCompress = q_serverCompress req, world = w \<rparr>
      in case form_file req of
           None \<Rightarrow> (Inl TypeError, c0, [])
         | Some file \<Rightarrow>
             (case (f_type file, f_name file) of
                (Some fileType, Some fileName) \<Rightarrow>
                  let st0 = \<lparr> ctx = c0,
                              metadata = initial_metadata req fileName fileType (f_size file),
                              calls = [] \<rparr>;
                      autoRetry = (q_autoRetry req \<noteq> Some (asc ''false''));
                      (r, st) =
                        (if uploadChannel = External then attempt up External st0
                         else (case attempt up uploadChannel st0 of
                                 (Inl e, st1) \<Rightarrow> (Inl e, st1)
                               | (Inr res, st1) \<Rightarrow>
                                   if status res = 200 \<or> \<not> autoRetry then (Inr res, st1)
                                   else tryRetry up stringify (res_text stringify res) uploadChannel st1))
                  in (r, ctx st, calls st)
              | _ \<Rightarrow>
                  (Inr \<lparr> status = 400,
                         body = Text (asc ''Error: fileType or fileName is wrong, check the integrity of this file!'') \<rparr>,
                   c0, [])))"

section \<open>\<open>uploadFileToDiscord\<close>\<close>

text \<open>
  A configured Discord channel and the Discord settings of \<open>uploadConfig\<close>. A
  field that may be missing is an option; \<open>dc_isNitro\<close> and
  \<open>ds_loadBalance_enabled\<close> hold the truthiness of \<open>isNitro\<close> and of
  \<open>loadBalance?.enabled\<close>.
\<close>

record discord_channel =
  dc_name :: "jsstring option"
  dc_botToken :: "jsstring option"
  dc_channelId :: "jsstring option"
  dc_isNitro :: bool
  dc_proxyUrl :: "jsstring option"

record discord_settings =
  ds_channels :: "discord_channel list option"
  ds_loadBalance_enabled :: bool

record fileInfo =
  fi_file_size :: nat
  fi_message_id :: jsstring
  fi_url :: jsstring

text \<open>
  The collaborators of the Discord upload, none of them in this file: \<open>sendFile\<close>
  followed by \<open>getFileInfo\<close> (\<open>Inl\<close>: the message of the error thrown,
  \<open>Inr None\<close>: no file info in the response), \<open>moderateContent\<close>, the database's
  \<open>put\<close> (\<open>False\<close>: it threw), \<open>waitUntil(endUpload(...))\<close>, and the two
  printing built-ins \<open>(n / 1024 / 1024).toFixed(2)\<close> and
  \<open>JSON.stringify([{ src: returnLink }])\<close>.
\<close>

record 'w discord_api =
  sendFile :: "jsstring \<Rightarrow> jsstring \<Rightarrow> jsstring \<Rightarrow> 'w \<Rightarrow> (jsstring + fileInfo option) \<times> 'w"
  moderateContent :: "jsstring \<Rightarrow> 'w \<Rightarrow> (jsstring + jsstring option) \<times> 'w"
  db_put :: "jsstring \<Rightarrow> metadata \<Rightarrow> 'w \<Rightarrow> bool \<times> 'w"
  endUpload :: "jsstring \<Rightarrow> metadata \<Rightarrow> 'w \<Rightarrow> 'w"
  mb_fixed2 :: "nat \<Rightarrow> jsstring"
  src_json :: "jsstring \<Rightarrow> jsstring"

datatype discord_event = SendFile | Moderate | DbPut | EndUpload

definition truthy_str :: "jsstring option \<Rightarrow> bool" where
  "truthy_str v = (case v of None \<Rightarrow> False | Some s \<Rightarrow> s \<noteq> [])"

text \<open>
  \<open>s.replace(pat, rep)\<close> for a string pattern: the first occurrence only. In the
  replacement text \<open>$$\<close> stands for a dollar sign, \<open>$&\<close> for the matched text,
  \<open>$`\<close> for the text before the match and \<open>$'\<close> for the text after it; a string
  pattern has no groups, so every other dollar sign stands for itself.
\<close>

fun expand_replacement :: "jsstring \<Rightarrow> jsstring \<Rightarrow> jsstring \<Rightarrow> jsstring \<Rightarrow> jsstring" where
  "expand_replacement matched before after (c # d # r) =
     (if c = 0x24
      then (if d = 0x24 then 0x24 # expand_replacement matched before after r
            else if d = 0x26 then matched @ expand_replacement matched before after r
            else if d = BACKTICK then before @ expand_replacement matched before after r
            else if d = 0x27 then after @ expand_replacement matched before after r
            else c # expand_replacement matched before after (d # r))
      else c # expand_replacement matched before after (d # r))"
| "expand_replacement matched before after s = s"

fun find_first :: "'a list \<Rightarrow> 'a list \<Rightarrow> nat option" where
  "find_first pat [] = (if pat = [] then Some 0 else None)"
| "find_first pat (x # xs) =
     (if starts_with (x # xs) pat then Some 0 else map_option Suc (find_first pat xs))"

definition js_replace :: "jsstring \<Rightarrow> jsstring \<Rightarrow> jsstring \<Rightarrow> jsstring" where
  "js_replace pat rep s =
     (case find_first pat s of
        None \<Rightarrow> s
      | Some i \<Rightarrow>
          take i s
          @ expand_replacement pat (take i s) (drop (i + length pat) s) rep
          @ drop (i + length pat) s)"

text \<open>
  The channel: the first one with the name asked for, else a random one under load
  balancing (\<open>rnd\<close> is the draw, any index of the list), else the first.
\<close>

definition pick_discord_channel ::
  "discord_settings \<Rightarrow> discord_channel list \<Rightarrow> jsstring option \<Rightarrow> nat \<Rightarrow> discord_channel" where
  "pick_discord_channel discordSettings discordChannels specifiedChannelName rnd =
     (case (if truthy_str specifiedChannelName
            then find (\<lambda>ch. dc_name ch = specifiedChannelName) discordChannels
            else None) of
        Some ch \<Rightarrow> ch
      | None \<Rightarrow>
          if ds_loadBalance_enabled discordSettings
          then discordChannels ! (rnd mod length discordChannels)
          else discordChannels ! 0)"

definition DISCORD_MAX_SIZE :: "bool \<Rightarrow> nat" where
  "DISCORD_MAX_SIZE isNitro = (if isNitro then 25 * 1024 * 1024 else 10 * 1024 * 1024)"

text \<open>The \<open>try\<close> block: the transfer and what follows it.\<close>

definition discord_transfer ::
  "'w discord_api \<Rightarrow> discord_channel \<Rightarrow> jsstring \<Rightarrow> jsstring \<Rightarrow> jsstring \<Rightarrow> jsstring \<Rightarrow>
   metadata \<Rightarrow> 'w \<Rightarrow> response \<times> metadata \<times> 'w \<times> discord_event list" where
  "discord_transfer A discordChannel botToken channelId fullId returnLink md w =
     (case sendFile A botToken channelId (FileName md) w of
        (Inl msg, w1) \<Rightarrow>
          (\<lparr> status = 500, body = Text (asc ''Error: Discord upload failed - '' @ msg) \<rparr>,
           md, w1, [SendFile])
      | (Inr None, w1) \<Rightarrow>
          (\<lparr> status = 500,
             body = Text (asc ''Error: Discord upload failed - ''
                          @ asc ''Failed to get file info from Discord response'') \<rparr>,
           md, w1, [SendFile])
      | (Inr (Some info), w1) \<Rightarrow>
          let md1 = md \<lparr> Channel := Some (asc ''Discord''),
                         ChannelName := Some (if truthy_str (dc_name discordChannel)
                                              then the (dc_name discordChannel)
                                              else asc ''Discord_env''),
                         FileSize := Some (mb_fixed2 A (fi_file_size info)),
                         DiscordMessageId := Some (fi_message_id info),
                         DiscordChannelId := Some channelId,
                         DiscordBotToken := Some botToken \<rparr>;
              md2 = (if truthy_str (dc_proxyUrl discordChannel)
                     then md1 \<lparr> DiscordProxyUrl := dc_proxyUrl discordChannel \<rparr> else md1);
              moderateUrl =
                (if truthy_str (dc_proxyUrl discordChannel)
                 then js_replace (asc ''https://cdn.discordapp.com'')
                        (asc ''https://'' @ the (dc_proxyUrl discordChannel)) (fi_url info)
                 else fi_url info)
          in (case moderateContent A moderateUrl w1 of
                (Inl msg, w2) \<Rightarrow>
                  (\<lparr> status = 500, body = Text (asc ''Error: Discord upload failed - '' @ msg) \<rparr>,
                   md2, w2, [SendFile, Moderate])
              | (Inr label, w2) \<Rightarrow>
                  let md3 = md2 \<lparr> Label := label \<rparr>
                  in (case db_put A fullId md3 w2 of
                        (False, w3) \<Rightarrow>
                          (\<lparr> status = 500,
                             body = Text (asc ''Error: Failed to write to KV database'') \<rparr>,
                           md3, w3, [SendFile, Moderate, DbPut])
                      | (True, w3) \<Rightarrow>
                          (\<lparr> status = 200, body = Text (src_json A returnLink) \<rparr>,
                           md3, endUpload A fullId md3 w3,
                           [SendFile, Moderate, DbPut, EndUpload]))))"

text \<open>
  \<open>uploadFileToDiscord\<close>: the response, the metadata and the world as it leaves
  them, and the calls it made to its collaborators.
\<close>

definition uploadFileToDiscord ::
  "'w discord_api \<Rightarrow> discord_settings option \<Rightarrow> jsstring option \<Rightarrow> nat \<Rightarrow> nat \<Rightarrow> jsstring \<Rightarrow>
   jsstring \<Rightarrow> metadata \<Rightarrow> 'w \<Rightarrow> response \<times> metadata \<times> 'w \<times> discord_event list" where
  "uploadFileToDiscord A discordSettings specifiedChannelName rnd fileSize fullId returnLink md w =
     (case (case discordSettings of
              None \<Rightarrow> None
            | Some ds \<Rightarrow>
                (case ds_channels ds of
                   None \<Rightarrow> None
                 | Some chs \<Rightarrow> if length chs = 0 then None else Some (ds, chs))) of
        None \<Rightarrow>
          (\<lparr> status = 400, body = Text (asc ''Error: No Discord channel configured'') \<rparr>, md, w, [])
      | Some (ds, discordChannels) \<Rightarrow>
          let discordChannel = pick_discord_channel ds discordChannels specifiedChannelName rnd
          in if \<not> truthy_str (dc_botToken discordChannel)
                \<or> \<not> truthy_str (dc_channelId discordChannel)
             then (\<lparr> status = 400,
                      body = Text (asc ''Error: Discord channel not properly configured'') \<rparr>, md, w, [])
             else
               let isNitro = dc_isNitro discordChannel
               in if fileSize > DISCORD_MAX_SIZE isNitro
                  then (\<lparr> status = 413,
                           body = Text (asc ''Error: File size exceeds Discord limit (''
                                        @ dec (if isNitro then 25 else 10)
                                        @ asc ''MB), please use another channel'') \<rparr>,
                        md, w, [])
                  else discord_transfer A discordChannel (the (dc_botToken discordChannel))
                         (the (dc_channelId discordChannel)) fullId returnLink md w)"

section \<open>Concrete requests and backends\<close>

text \<open>
  Inputs the theorems below are run on: a world with nothing in it, upload functions
  that answer by family alone, and a request for the Discord channel.
\<close>

definition down :: response where
  "down = \<lparr> status = 500, body = Text (asc ''down'') \<rparr>"

definition stored :: response where
  "stored = \<lparr> status = 200, body = Text (asc ''ok'') \<rparr>"

definition all_down :: "unit uploader" where
  "all_down ch c md = (Inr down, c, md)"

definition only_telegram_up :: "unit uploader" where
  "only_telegram_up ch c md = (if ch = TelegramNew then Inr stored else Inr down, c, md)"

definition no_stringify :: "(jsstring \<times> jsstring) list \<Rightarrow> jsstring" where
  "no_stringify m = []"

definition png_file :: form_file where
  "png_file = \<lparr> f_type = Some (asc ''image/png''), f_name = Some (asc ''art//a.png''),
                f_size = 2048 \<rparr>"

definition discord_request :: request where
  "discord_request = \<lparr> q_uploadChannel = Some (asc ''discord''), q_uploadFolder = None,
                       q_autoRetry = None, q_serverCompress = None,
                       form_file = Some png_file \<rparr>"

definition unknown_request :: request where
  "unknown_request = \<lparr> q_uploadChannel = Some (asc ''ftp''), q_uploadFolder = Some (asc ''/a//b/''),
                       q_autoRetry = None, q_serverCompress = None,
                       form_file = Some png_file \<rparr>"



definition after_first_failure :: "unit state" where
  "after_first_failure =
     \<lparr> ctx = \<lparr> serverCompress = None, world = () \<rparr>,
       metadata = initial_metadata discord_request (asc ''art//a.png'') (asc ''image/png'') 2048,
       calls = [Call Discord None (Inr down)] \<rparr>"

text \<open>
  For the Discord upload: collaborators that do nothing (no file info comes back), a
  channel without the Nitro flag, and the metadata of a file of 30 MiB.
\<close>

definition idle_discord :: "unit discord_api" where
  "idle_discord =
     \<lparr> sendFile = (\<lambda>token channel name w. (Inr None, w)),
       moderateContent = (\<lambda>url w. (Inr None, w)),
       db_put = (\<lambda>fullId md w. (True, w)),
       endUpload = (\<lambda>fullId md w. w),
       mb_fixed2 = (\<lambda>n. []),
       src_json = (\<lambda>link. link) \<rparr>"

definition free_channel :: discord_channel where
  "free_channel = \<lparr> dc_name = Some (asc ''main''), dc_botToken = Some (asc ''token''),
                   dc_channelId = Some (asc ''42''), dc_isNitro = False, dc_proxyUrl = None \<rparr>"

definition one_channel :: "discord_channel \<Rightarrow> discord_settings" where
  "one_channel ch = \<lparr> ds_channels = Some [ch], ds_loadBalance_enabled = False \<rparr>"

definition big_file_metadata :: metadata where
  "big_file_metadata =
     initial_metadata discord_request (asc ''art//a.png'') (asc ''image/png'') (30 * 1024 * 1024)"

text \<open>
  For the extractor: a runtime whose decoder maps each byte to the code unit of the
  same number (as UTF-8 decoding does on ASCII), whose \<open>JSON.parse\<close> accepts
  nothing, and whose numbers are the naturals.
\<close>

definition ascii_platform :: "nat platform" where
  "ascii_platform =
     \<lparr> text_decode = map ucast, json_parse = (\<lambda>s. None),
       num_truthy = (\<lambda>n. n \<noteq> 0), num_to_string = dec \<rparr>"

text \<open>
  Two PNG files. In \<open>far_text_png\<close> a chunk of 262124 zero bytes fills the file up
  to offset 262144, where a \<open>tEXt\<close> chunk \<open>Description\0cat\<close> begins, followed
  by \<open>IEND\<close>. In \<open>marker_png\<close> the only chunk is a \<open>tEXt\<close> chunk
  \<open>Comment\0masterpiece\<close>, whose value is no JSON.
\<close>

definition png_signature :: "byte list" where
  "png_signature = [0x89, 0x50, 0x4E, 0x47, 0x0D, 0x0A, 0x1A, 0x0A]"

definition description_chunk :: "byte list" where
  "description_chunk =
     [0, 0, 0, 15] @ [0x74, 0x45, 0x58, 0x74]
     @ [0x44, 0x65, 0x73, 0x63, 0x72, 0x69, 0x70, 0x74, 0x69, 0x6F, 0x6E, 0, 0x63, 0x61, 0x74]
     @ [0, 0, 0, 0]"

definition iend_chunk :: "byte list" where
  "iend_chunk = [0, 0, 0, 0] @ [0x49, 0x45, 0x4E, 0x44] @ [0xAE, 0x42, 0x60, 0x82]"

definition far_text_png :: "byte list" where
  "far_text_png =
     (png_signature @ [0x00, 0x03, 0xFF, 0xEC] @ [0x49, 0x44, 0x41, 0x54])
     @ replicate 262124 0 @ ([0, 0, 0, 0] @ description_chunk @ iend_chunk)"



section \<open>Properties of the text chunk split\<close>

lemma asc_Cons: "asc (c # cs) = of_char c # asc cs"
  by (simp add: asc_def)

lemma asc_Nil: "asc [] = []"
  by (simp add: asc_def)

lemma length_asc: "length (asc s) = length s"
  by (simp add: asc_def)

lemma js_split_nonempty: "js_split sep xs \<noteq> []"
  by (induction xs) (auto split: list.splits)

lemma js_split_hd: "hd (js_split sep xs) = takeWhile (\<lambda>c. c \<noteq> sep) xs"
  by (induction xs) (auto split: list.splits simp: js_split_nonempty)

lemma js_split_no_sep: "sep \<notin> set xs \<Longrightarrow> js_split sep xs = [xs]"
  by (induction xs) auto

lemma js_split_length: "sep \<in> set xs \<Longrightarrow> 2 \<le> length (js_split sep xs)"
  by (induction xs) (auto split: list.splits simp: js_split_nonempty)

lemma takeWhile_snoc_stop: "\<not> P x \<Longrightarrow> takeWhile P (ys @ [x]) = takeWhile P ys"
  by (induction ys) auto

lemma takeWhile_stop_at: "sep \<notin> set xs \<Longrightarrow> takeWhile (\<lambda>c. c \<noteq> sep) (xs @ sep # ys) = xs"
  by (induction xs) auto

lemma js_split_last: "last (js_split sep xs) = rev (takeWhile (\<lambda>c. c \<noteq> sep) (rev xs))"
proof (induction xs)
  case Nil
  then show ?case by simp
next
  case (Cons x xs)
  show ?case
  proof (cases "x = sep")
    case True
    then have "last (js_split sep (x # xs)) = last (js_split sep xs)"
      by (simp add: js_split_nonempty)
    moreover have "takeWhile (\<lambda>c. c \<noteq> sep) (rev xs @ [x]) = takeWhile (\<lambda>c. c \<noteq> sep) (rev xs)"
      using True by (simp add: takeWhile_snoc_stop)
    ultimately show ?thesis using Cons by simp
  next
    case False
    show ?thesis
    proof (cases "sep \<in> set xs")
      case True
      then have "2 \<le> length (js_split sep xs)" by (rule js_split_length)
      then obtain p q ps where "js_split sep xs = p # q # ps"
        by (cases "js_split sep xs"; cases "tl (js_split sep xs)") auto
      then have "last (js_split sep (x # xs)) = last (js_split sep xs)"
        using False by simp
      moreover have "takeWhile (\<lambda>c. c \<noteq> sep) (rev xs @ [x]) = takeWhile (\<lambda>c. c \<noteq> sep) (rev xs)"
        using True by (simp add: takeWhile_append1)
      ultimately show ?thesis using Cons by simp
    next
      case nosep: False
      then have "js_split sep (x # xs) = [x # xs]"
        using False js_split_no_sep [of sep "x # xs"] by simp
      moreover have "\<forall>c\<in>set (rev (x # xs)). c \<noteq> sep"
        using nosep False by auto
      then have "takeWhile (\<lambda>c. c \<noteq> sep) (rev (x # xs)) = rev (x # xs)"
        by (simp only: takeWhile_eq_all_conv)
      ultimately show ?thesis by (simp only: last.simps rev_rev_ident if_True refl)
    qed
  qed
qed

lemma text_key_eq: "text_key t = takeWhile (\<lambda>c. c \<noteq> NUL) t"
  by (simp add: text_key_def js_split_hd)

lemma text_value_eq: "text_value t = rev (takeWhile (\<lambda>c. c \<noteq> NUL) (rev t))"
  by (simp add: text_value_def Let_def js_split_last [symmetric] last_conv_nth js_split_nonempty)

text \<open>
  Claim C4, as the code has it. The key of a decoded text payload is its first
  field of the split at code unit 0, and the value is its \<^emph>\<open>last\<close> field: the text
  after the last 0, and the whole payload when it holds no 0. The value is the whole
  rest after the first 0 exactly when that rest holds no further 0.
\<close>

theorem text_payload_key_first_value_last:
  "text_key t = takeWhile (\<lambda>c. c \<noteq> NUL) t
   \<and> text_value t = rev (takeWhile (\<lambda>c. c \<noteq> NUL) (rev t))
   \<and> (NUL \<notin> set k \<and> NUL \<notin> set v \<longrightarrow>
        text_key (k @ NUL # v) = k \<and> text_value (k @ NUL # v) = v)"
proof -
  have "text_key (k @ NUL # v) = k" if "NUL \<notin> set k"
    using that by (simp add: text_key_eq takeWhile_stop_at)
  moreover have "text_value (k @ NUL # v) = v" if "NUL \<notin> set v"
  proof -
    have "takeWhile (\<lambda>c. c \<noteq> NUL) (rev v @ NUL # rev k) = rev v"
      using that by (simp add: takeWhile_stop_at)
    then show ?thesis by (simp add: text_value_eq)
  qed
  ultimately show ?thesis
    by (simp add: text_key_eq text_value_eq)
qed

theorem text_payload_key_first_value_last_witness:
  "text_key (asc ''Comment'' @ [NUL] @ asc ''a'' @ [NUL] @ asc ''b'') = asc ''Comment''
   \<and> text_value (asc ''Comment'' @ [NUL] @ asc ''a'' @ [NUL] @ asc ''b'') = asc ''b''
   \<and> text_key (asc ''Description'' @ NUL # asc ''cat'') = asc ''Description''
   \<and> text_value (asc ''Description'' @ NUL # asc ''cat'') = asc ''cat''"
  using text_payload_key_first_value_last
    [of "asc ''Comment'' @ [NUL] @ asc ''a'' @ [NUL] @ asc ''b''" "asc ''Description''" "asc ''cat''"]
  by (simp add: asc_Cons asc_Nil NUL_def)

text \<open>
  Against claim C4 as it was stated: in the payload \<open>Comment\0a\0b\<close> the rest
  after the first 0 is \<open>a\0b\<close>, and the value the extractor takes is \<open>b\<close>.
\<close>

theorem text_value_not_rest_counterexample:
  "text_key (asc ''Comment'' @ [NUL] @ asc ''a'' @ [NUL] @ asc ''b'') = asc ''Comment''
   \<and> text_value (asc ''Comment'' @ [NUL] @ asc ''a'' @ [NUL] @ asc ''b'')
       \<noteq> asc ''a'' @ [NUL] @ asc ''b''"
  by (simp add: text_key_eq text_value_eq asc_Cons asc_Nil NUL_def)

section \<open>The calls of the failover loop\<close>


lemma attempt_calls:
  "attempt up ch st = (r, st1) \<Longrightarrow> calls st1 = calls st @ [Call ch (serverCompress (ctx st)) r]"
  by (auto simp: attempt_def split: prod.splits)

lemma is_failure_Inr [simp]: "is_failure (Inr res) \<longleftrightarrow> status res \<noteq> 200"
  by (simp add: is_failure_def)

lemma is_failure_Inl [simp]: "\<not> is_failure (Inl e)"
  by (simp add: is_failure_def)

lemma is_success_Inr [simp]: "is_success (Inr res) \<longleftrightarrow> status res = 200"
  by (simp add: is_success_def)

lemma is_success_Inl [simp]: "\<not> is_success (Inl e)"
  by (simp add: is_success_def)


lemma failover_calls:
  "failover up S ch chs errs st = (r, st') \<Longrightarrow>
   \<exists>cs. calls st' = calls st @ cs
      \<and> (\<exists>k. map call_channel cs = take k (eligible ch chs))
      \<and> (\<forall>c\<in>set (butlast cs). is_failure (call_result c))
      \<and> (cs \<noteq> [] \<and> \<not> is_failure (call_result (last cs)) \<longrightarrow> r = call_result (last cs))
      \<and> ((\<forall>c\<in>set cs. is_failure (call_result c)) \<longrightarrow>
            map call_channel cs = eligible ch chs
            \<and> (\<exists>errs'. r = Inr \<lparr> status = 500, body = Json_object errs' \<rparr>))"
proof (induction chs arbitrary: errs st)
  case Nil
  then show ?case by (auto simp: eligible_def)
next
  case (Cons c rest)
  show ?case
  proof (cases "c \<noteq> ch \<and> has_uploader c")
    case False
    then have "failover up S ch rest errs st = (r, st')"
      using Cons.prems by (auto split: if_splits)
    from Cons.IH [OF this] show ?thesis
      using False by (auto simp: eligible_def)
  next
    case True
    obtain r1 st1 where a: "attempt up c st = (r1, st1)" by (cases "attempt up c st")
    have c1: "calls st1 = calls st @ [Call c (serverCompress (ctx st)) r1]"
      using a by (rule attempt_calls)
    have el: "eligible ch (c # rest) = c # eligible ch rest"
      using True by (simp add: eligible_def)
    show ?thesis
    proof (cases "is_failure r1")
      case False
      then have "r = r1 \<and> st' = st1"
        using Cons.prems True a by (auto split: sum.splits if_splits)
      then show ?thesis
        using c1 False el
        by (intro exI [of _ "[Call c (serverCompress (ctx st)) r1]"]) (auto intro: exI [of _ 1])
    next
      case fail: True
      then obtain res where r1: "r1 = Inr res" "status res \<noteq> 200"
        by (cases r1) auto
      have "failover up S ch rest
              (AList.update (channel_name c) (asc ''Error: '' @ channel_name c @ res_text S res) errs) st1
            = (r, st')"
        using Cons.prems True a r1 by simp
      from Cons.IH [OF this] obtain cs k where cs:
        "calls st' = calls st1 @ cs"
        "map call_channel cs = take k (eligible ch rest)"
        "\<forall>c\<in>set (butlast cs). is_failure (call_result c)"
        "cs \<noteq> [] \<and> \<not> is_failure (call_result (last cs)) \<longrightarrow> r = call_result (last cs)"
        "(\<forall>c\<in>set cs. is_failure (call_result c)) \<longrightarrow>
            map call_channel cs = eligible ch rest
            \<and> (\<exists>errs'. r = Inr \<lparr> status = 500, body = Json_object errs' \<rparr>)"
        by blast
      let ?c0 = "Call c (serverCompress (ctx st)) r1"
      have 1: "calls st' = calls st @ (?c0 # cs)" using cs(1) c1 by simp
      have 2: "map call_channel (?c0 # cs) = take (Suc k) (eligible ch (c # rest))"
        using cs(2) el by simp
      have 3: "\<forall>x\<in>set (butlast (?c0 # cs)). is_failure (call_result x)"
        using cs(3) fail by auto
      have 4: "?c0 # cs \<noteq> [] \<and> \<not> is_failure (call_result (last (?c0 # cs)))
                 \<longrightarrow> r = call_result (last (?c0 # cs))"
        using cs(4) fail by auto
      have 5: "(\<forall>x\<in>set (?c0 # cs). is_failure (call_result x)) \<longrightarrow>
            map call_channel (?c0 # cs) = eligible ch (c # rest)
            \<and> (\<exists>errs'. r = Inr \<lparr> status = 500, body = Json_object errs' \<rparr>)"
        using cs(5) el by auto
      show ?thesis
        using 1 2 3 4 5 by blast
    qed
  qed
qed


lemma update_fresh: "k \<notin> fst ` set al \<Longrightarrow> AList.update k v al = al @ [(k, v)]"
  by (induction al) auto



lemma channel_name_inj: "channel_name a = channel_name b \<longleftrightarrow> a = b"
  by (cases a; cases b) (simp_all add: asc_Cons asc_Nil)

lemma channel_name_retry: "channel_name a @ asc ''_retry'' \<noteq> channel_name b"
  by (cases a; cases b) (simp_all add: asc_Cons asc_Nil)

lemma failover_errs:
  "failover up S ch chs errs st = (r, st') \<Longrightarrow> calls st' = calls st @ cs \<Longrightarrow>
   \<forall>c\<in>set cs. is_failure (call_result c) \<Longrightarrow> distinct chs \<Longrightarrow>
   \<forall>x\<in>set (eligible ch chs). channel_name x \<notin> fst ` set errs \<Longrightarrow> \<forall>p\<in>set errs. snd p \<noteq> [] \<Longrightarrow>
   \<exists>errs'. r = Inr \<lparr> status = 500, body = Json_object errs' \<rparr>
      \<and> map fst errs' = map fst errs @ map channel_name (eligible ch chs)
      \<and> (\<forall>p\<in>set errs'. snd p \<noteq> [])"
proof (induction chs arbitrary: errs st cs)
  case Nil
  then show ?case by (auto simp: eligible_def)
next
  case (Cons c rest)
  show ?case
  proof (cases "c \<noteq> ch \<and> has_uploader c")
    case False
    then have "failover up S ch rest errs st = (r, st')"
      using Cons.prems(1) by (auto split: if_splits)
    from Cons.IH [OF this Cons.prems(2,3)] Cons.prems(4,5,6) show ?thesis
      using False by (auto simp: eligible_def)
  next
    case True
    obtain r1 st1 where a: "attempt up c st = (r1, st1)" by (cases "attempt up c st")
    have c1: "calls st1 = calls st @ [Call c (serverCompress (ctx st)) r1]"
      using a by (rule attempt_calls)
    have el: "eligible ch (c # rest) = c # eligible ch rest"
      using True by (simp add: eligible_def)
    have ext: "\<exists>cs'. calls st' = calls st1 @ cs'"
    proof (cases "is_failure r1")
      case False
      then have "st' = st1" using Cons.prems(1) True a by (auto split: sum.splits if_splits)
      then show ?thesis by simp
    next
      case fail: True
      then obtain res where "r1 = Inr res" "status res \<noteq> 200" by (cases r1) auto
      then have "failover up S ch rest
              (AList.update (channel_name c) (asc ''Error: '' @ channel_name c @ res_text S res) errs) st1
            = (r, st')"
        using Cons.prems(1) True a by simp
      from failover_calls [OF this] show ?thesis by blast
    qed
    then obtain cs' where cs': "calls st' = calls st1 @ cs'" by blast
    then have cs_eq: "cs = Call c (serverCompress (ctx st)) r1 # cs'"
      using Cons.prems(2) c1 by simp
    then have fail: "is_failure r1" and fail': "\<forall>x\<in>set cs'. is_failure (call_result x)"
      using Cons.prems(3) by auto
    from fail obtain res where r1: "r1 = Inr res" "status res \<noteq> 200" by (cases r1) auto
    let ?errs = "AList.update (channel_name c) (asc ''Error: '' @ channel_name c @ res_text S res) errs"
    have fo: "failover up S ch rest ?errs st1 = (r, st')"
      using Cons.prems(1) True a r1 by simp
    have fresh: "channel_name c \<notin> fst ` set errs" using Cons.prems(5) el by simp
    then have upd: "?errs = errs @ [(channel_name c, asc ''Error: '' @ channel_name c @ res_text S res)]"
      by (rule update_fresh)
    have d: "distinct rest" and cn: "c \<notin> set rest" using Cons.prems(4) by auto
    have "\<forall>x\<in>set (eligible ch rest). x \<noteq> c"
      using cn by (auto simp: eligible_def)
    then have k: "\<forall>x\<in>set (eligible ch rest). channel_name x \<notin> fst ` set ?errs"
      unfolding upd using Cons.prems(5) el by (auto simp: channel_name_inj)
    have "asc ''Error: '' @ channel_name c @ res_text S res \<noteq> []"
      by (simp add: asc_Cons)
    then have v: "\<forall>p\<in>set ?errs. snd p \<noteq> []"
      unfolding upd using Cons.prems(6) by auto
    from Cons.IH [OF fo cs' fail' d k v] show ?thesis
      by (auto simp: el upd)
  qed
qed

lemma eligible_channelList: "eligible ch channelList = filter (\<lambda>x. x \<noteq> ch) channelList"
  by (simp add: eligible_def channelList_def has_uploader_def)

lemma tryRetry_calls:
  assumes "has_uploader ch" and "tryRetry up S err ch st = (r, st')"
  shows "\<exists>r1 cs. calls st' = calls st @ Call ch (Some (asc ''false'')) r1 # cs
      \<and> (\<not> is_failure r1 \<longrightarrow> cs = [] \<and> r = r1)
      \<and> (\<exists>k. map call_channel cs = take k (filter (\<lambda>x. x \<noteq> ch) channelList))
      \<and> (\<forall>c\<in>set (butlast cs). is_failure (call_result c))
      \<and> (cs \<noteq> [] \<and> \<not> is_failure (call_result (last cs)) \<longrightarrow> r = call_result (last cs))
      \<and> (is_failure r1 \<and> (\<forall>c\<in>set cs. is_failure (call_result c)) \<longrightarrow>
            map call_channel cs = filter (\<lambda>x. x \<noteq> ch) channelList
            \<and> (\<exists>errs'. r = Inr \<lparr> status = 500, body = Json_object errs' \<rparr>
                  \<and> map fst errs' = channel_name ch # (channel_name ch @ asc ''_retry'')
                                      # map channel_name (filter (\<lambda>x. x \<noteq> ch) channelList)
                  \<and> (\<forall>p\<in>set errs'. snd p \<noteq> [])))"
proof -
  let ?st1 = "st \<lparr> ctx := (ctx st) \<lparr> serverCompress := Some (asc ''false'') \<rparr> \<rparr>"
  obtain r1 st2 where a: "attempt up ch ?st1 = (r1, st2)" by (cases "attempt up ch ?st1")
  have c2: "calls st2 = calls st @ [Call ch (Some (asc ''false'')) r1]"
    using attempt_calls [OF a] by simp
  show ?thesis
  proof (cases "is_failure r1")
    case False
    then have "r = r1 \<and> st' = st2"
      using assms a by (auto simp: tryRetry_def Let_def split: sum.splits if_splits)
    then show ?thesis using c2 False
      by (intro exI [of _ r1] exI [of _ "[]"]) (auto intro: exI [of _ 0])
  next
    case True
    then obtain res where r1: "r1 = Inr res" "status res \<noteq> 200" by (cases r1) auto
    let ?e0 = "[(channel_name ch, asc ''Error: '' @ channel_name ch @ err)]"
    let ?e1 = "?e0 @ [(channel_name ch @ asc ''_retry'',
                 asc ''Error: '' @ channel_name ch @ asc '' retry - '' @ res_text S res)]"
    have e1: "AList.update (channel_name ch @ asc ''_retry'')
                (asc ''Error: '' @ channel_name ch @ asc '' retry - '' @ res_text S res)
                (AList.update (channel_name ch) (asc ''Error: '' @ channel_name ch @ err) []) = ?e1"
      using channel_name_retry [of ch ch] by simp
    have fo: "failover up S ch channelList ?e1 st2 = (r, st')"
      using assms a r1 e1 by (simp add: tryRetry_def Let_def)
    from failover_calls [OF fo] obtain cs k where cs:
        "calls st' = calls st2 @ cs"
        "map call_channel cs = take k (eligible ch channelList)"
        "\<forall>c\<in>set (butlast cs). is_failure (call_result c)"
        "cs \<noteq> [] \<and> \<not> is_failure (call_result (last cs)) \<longrightarrow> r = call_result (last cs)"
        "(\<forall>c\<in>set cs. is_failure (call_result c)) \<longrightarrow>
            map call_channel cs = eligible ch channelList
            \<and> (\<exists>errs'. r = Inr \<lparr> status = 500, body = Json_object errs' \<rparr>)"
      by blast
    have keys: "\<forall>x\<in>set (eligible ch channelList). channel_name x \<notin> fst ` set ?e1"
      using channel_name_retry [of ch, symmetric] by (auto simp: channel_name_inj eligible_def)
    have vals: "\<forall>p\<in>set ?e1. snd p \<noteq> []"
      by (simp add: asc_Cons)
    have dist: "distinct channelList"
      by (simp add: channelList_def)
    have errs: "\<exists>errs'. r = Inr \<lparr> status = 500, body = Json_object errs' \<rparr>
      \<and> map fst errs' = map fst ?e1 @ map channel_name (eligible ch channelList)
      \<and> (\<forall>p\<in>set errs'. snd p \<noteq> [])" if "\<forall>c\<in>set cs. is_failure (call_result c)"
      using failover_errs [OF fo cs(1) that dist keys vals] .
    have 1: "calls st' = calls st @ Call ch (Some (asc ''false'')) r1 # cs"
      using cs(1) c2 by simp
    show ?thesis
      using 1 True cs(2,3,4,5) errs
      by (intro exI [of _ r1] exI [of _ cs]) (auto simp: eligible_channelList)
  qed
qed

section \<open>Properties of \<open>tryRetry\<close> and \<open>processFileUpload\<close>\<close>


lemma tryRetry_no_retry_calls:
  assumes "\<not> has_uploader ch" and "tryRetry up S err ch st = (r, st')"
  shows "\<exists>cs. calls st' = calls st @ cs
      \<and> (\<forall>c\<in>set (butlast cs). is_failure (call_result c))
      \<and> (cs \<noteq> [] \<and> \<not> is_failure (call_result (last cs)) \<longrightarrow> r = call_result (last cs))"
proof -
  let ?st1 = "st \<lparr> ctx := (ctx st) \<lparr> serverCompress := Some (asc ''false'') \<rparr> \<rparr>"
  have "failover up S ch channelList
          (AList.update (channel_name ch) (asc ''Error: '' @ channel_name ch @ err) []) ?st1 = (r, st')"
    using assms by (simp add: tryRetry_def Let_def)
  from failover_calls [OF this] show ?thesis by auto
qed

lemma tryRetry_log:
  assumes "tryRetry up S err ch st = (r, st')"
  shows "\<exists>cs. calls st' = calls st @ cs
      \<and> (\<forall>c\<in>set (butlast cs). is_failure (call_result c))
      \<and> (cs \<noteq> [] \<and> \<not> is_failure (call_result (last cs)) \<longrightarrow> r = call_result (last cs))"
proof (cases "has_uploader ch")
  case False
  then show ?thesis using assms by (rule tryRetry_no_retry_calls)
next
  case True
  from tryRetry_calls [OF True assms] obtain r1 cs where cs:
    "calls st' = calls st @ Call ch (Some (asc ''false'')) r1 # cs"
    "\<not> is_failure r1 \<longrightarrow> cs = [] \<and> r = r1"
    "\<forall>c\<in>set (butlast cs). is_failure (call_result c)"
    "cs \<noteq> [] \<and> \<not> is_failure (call_result (last cs)) \<longrightarrow> r = call_result (last cs)"
    by blast
  show ?thesis
    using cs by (intro exI [of _ "Call ch (Some (asc ''false'')) r1 # cs"]) auto
qed

lemma success_not_failure: "is_success r \<Longrightarrow> \<not> is_failure r"
  by (cases r) auto

lemma success_is_last:
  assumes "\<forall>c\<in>set (butlast cs). is_failure (call_result c)"
    and "cs \<noteq> [] \<and> \<not> is_failure (call_result (last cs)) \<longrightarrow> r = call_result (last cs)"
    and "i < length cs" and "is_success (call_result (cs ! i))"
  shows "Suc i = length cs \<and> r = call_result (cs ! i)"
proof -
  have nf: "\<not> is_failure (call_result (cs ! i))"
    using assms(4) by (rule success_not_failure)
  have "\<not> i < length (butlast cs)"
  proof
    assume "i < length (butlast cs)"
    then have "butlast cs ! i \<in> set (butlast cs)" by simp
    moreover have "butlast cs ! i = cs ! i"
      using \<open>i < length (butlast cs)\<close> by (simp add: nth_butlast)
    ultimately show False using assms(1) nf by auto
  qed
  then have i: "Suc i = length cs" using assms(3) by simp
  have ne: "cs \<noteq> []" using assms(3) by auto
  have "last cs = cs ! (length cs - 1)" using ne by (rule last_conv_nth)
  then have "cs ! i = last cs" using i by (metis diff_Suc_1)
  then show ?thesis using i assms(2) ne nf by auto
qed

text \<open>
  Claim C7. Among the calls \<open>tryRetry\<close> makes, one that returns a success (status
  200) is the last call made, and its response is what \<open>tryRetry\<close> returns: no
  upload function is called after a success.
\<close>

theorem failover_stops_at_first_success:
  assumes "tryRetry up S err ch st = (r, st')"
  shows "\<exists>cs. calls st' = calls st @ cs
      \<and> (\<forall>i<length cs. is_success (call_result (cs ! i)) \<longrightarrow>
             Suc i = length cs \<and> r = call_result (cs ! i))"
proof -
  from tryRetry_log [OF assms] obtain cs where cs:
    "calls st' = calls st @ cs"
    "\<forall>c\<in>set (butlast cs). is_failure (call_result c)"
    "cs \<noteq> [] \<and> \<not> is_failure (call_result (last cs)) \<longrightarrow> r = call_result (last cs)"
    by blast
  show ?thesis
    using cs(1) success_is_last [OF cs(2,3)] by blast
qed


lemma only_telegram_up_run:
  "tryRetry only_telegram_up S err Discord st =
     (Inr stored,
      st \<lparr> ctx := (ctx st) \<lparr> serverCompress := Some (asc ''false'') \<rparr>,
           calls := calls st @ [Call Discord (Some (asc ''false'')) (Inr down),
                                Call CloudflareR2 (Some (asc ''false'')) (Inr down),
                                Call TelegramNew (Some (asc ''false'')) (Inr stored)] \<rparr>)"
  by (simp add: tryRetry_def Let_def has_uploader_def attempt_def only_telegram_up_def
       channelList_def down_def stored_def)

theorem failover_stops_at_first_success_witness:
  "map call_result (calls (snd (tryRetry only_telegram_up no_stringify (asc ''down'') Discord
                                  after_first_failure)))
     = [Inr down, Inr down, Inr down, Inr stored]
   \<and> is_success (Inr stored)
   \<and> (\<exists>cs. calls (snd (tryRetry only_telegram_up no_stringify (asc ''down'') Discord
                           after_first_failure)) = calls after_first_failure @ cs
          \<and> (\<forall>i<length cs. is_success (call_result (cs ! i)) \<longrightarrow>
                 Suc i = length cs \<and> Inr stored = call_result (cs ! i)))"
  using failover_stops_at_first_success
    [of only_telegram_up no_stringify "asc ''down''" Discord after_first_failure "Inr stored"
        "snd (tryRetry only_telegram_up no_stringify (asc ''down'') Discord after_first_failure)"]
  by (simp add: only_telegram_up_run after_first_failure_def stored_def)

lemma processFileUpload_retry:
  assumes ok: "form_file req = Some file" "f_type file = Some ty" "f_name file = Some nm"
      and ar: "q_autoRetry req \<noteq> Some (asc ''false'')"
      and ch: "select_channel (q_uploadChannel req) = ch" "ch \<noteq> External"
      and run: "processFileUpload up S req w = (r, c, log)"
      and first: "is_failure (call_result (hd log))"
  shows "\<exists>res0 st1 st'. status res0 \<noteq> 200
      \<and> calls st1 = [Call ch (q_serverCompress req) (Inr res0)]
      \<and> tryRetry up S (res_text S res0) ch st1 = (r, st') \<and> log = calls st' \<and> c = ctx st'"
proof -
  let ?st0 = "\<lparr> ctx = \<lparr> serverCompress = q_serverCompress req, world = w \<rparr>,
                  metadata = initial_metadata req nm ty (f_size file), calls = [] \<rparr>"
  obtain r0 st1 where a: "attempt up ch ?st0 = (r0, st1)" by (cases "attempt up ch ?st0")
  have c1: "calls st1 = [Call ch (q_serverCompress req) r0]"
    using attempt_calls [OF a] by simp
  have f0: "is_failure r0"
  proof (rule ccontr)
    assume "\<not> is_failure r0"
    then have "log = calls st1"
      using run ok ar ch a
      by (auto simp: processFileUpload_def Let_def split: sum.splits if_splits prod.splits)
    then show False using first c1 \<open>\<not> is_failure r0\<close> by simp
  qed
  then obtain res0 where r0: "r0 = Inr res0" "status res0 \<noteq> 200" by (cases r0) auto
  obtain r' st' where t: "tryRetry up S (res_text S res0) ch st1 = (r', st')"
    by (cases "tryRetry up S (res_text S res0) ch st1")
  have "r = r' \<and> c = ctx st' \<and> log = calls st'"
    using run ok ar ch a r0 t by (simp add: processFileUpload_def Let_def)
  then show ?thesis using r0 c1 t by blast
qed

lemma has_uploader_iff: "has_uploader ch \<longleftrightarrow> ch \<noteq> External"
  by (cases ch) (simp_all add: has_uploader_def)

lemma count_list_distinct: "distinct xs \<Longrightarrow> count_list xs x \<le> 1"
  by (induction xs) auto

lemma count_list_absent: "x \<notin> set xs \<Longrightarrow> count_list xs x = 0"
  by (induction xs) auto

lemma others_count:
  "count_list (take k (filter (\<lambda>x. x \<noteq> ch) channelList)) f \<le> (if f = ch then 0 else 1)"
proof (cases "f = ch")
  case True
  have "ch \<notin> set (take k (filter (\<lambda>x. x \<noteq> ch) channelList))"
    by (auto dest: in_set_takeD)
  then show ?thesis using True by (simp add: count_list_absent)
next
  case False
  have "distinct (take k (filter (\<lambda>x. x \<noteq> ch) channelList))"
    by (simp add: channelList_def)
  then have "count_list (take k (filter (\<lambda>x. x \<noteq> ch) channelList)) f \<le> 1"
    by (rule count_list_distinct)
  then show ?thesis using False by simp
qed

lemma failover_trial:
  "failover up S ch chs errs st = (r, st') \<Longrightarrow>
   trial_run up (eligible ch chs) (ctx st) (metadata st) = (cs, c', md') \<Longrightarrow>
   calls st' = calls st @ cs \<and> ctx st' = c' \<and> metadata st' = md'"
proof (induction chs arbitrary: errs st cs c' md')
  case Nil
  then show ?case by (simp add: eligible_def)
next
  case (Cons c rest)
  show ?case
  proof (cases "c \<noteq> ch \<and> has_uploader c")
    case False
    then have 1: "failover up S ch rest errs st = (r, st')"
      using Cons.prems(1) by (auto split: if_splits)
    have 2: "eligible ch (c # rest) = eligible ch rest"
      using False by (auto simp: eligible_def)
    from Cons.IH [OF 1] Cons.prems(2) show ?thesis unfolding 2 by simp
  next
    case True
    obtain r1 c1 md1 where u: "up c (ctx st) (metadata st) = (r1, c1, md1)"
      by (cases "up c (ctx st) (metadata st)")
    let ?call = "Call c (serverCompress (ctx st)) r1"
    let ?st1 = "\<lparr> ctx = c1, metadata = md1, calls = calls st @ [?call] \<rparr>"
    have a: "attempt up c st = (r1, ?st1)"
      using u by (simp add: attempt_def)
    have el: "eligible ch (c # rest) = c # eligible ch rest"
      using True by (simp add: eligible_def)
    show ?thesis
    proof (cases "is_failure r1")
      case False
      then have "r = r1 \<and> st' = ?st1"
        using Cons.prems(1) True a by (auto split: sum.splits if_splits)
      moreover have "cs = [?call] \<and> c' = c1 \<and> md' = md1"
        using Cons.prems(2) False u unfolding el by simp
      ultimately show ?thesis by simp
    next
      case fail: True
      then obtain res where r1: "r1 = Inr res" "status res \<noteq> 200" by (cases r1) auto
      have fo: "failover up S ch rest
              (AList.update (channel_name c) (asc ''Error: '' @ channel_name c @ res_text S res) errs) ?st1
            = (r, st')"
        using Cons.prems(1) True a r1 by simp
      obtain cs2 c2 md2 where t2: "trial_run up (eligible ch rest) c1 md1 = (cs2, c2, md2)"
        by (cases "trial_run up (eligible ch rest) c1 md1")
      have eq: "cs = ?call # cs2 \<and> c' = c2 \<and> md' = md2"
        using Cons.prems(2) fail u t2 unfolding el by simp
      have "trial_run up (eligible ch rest) (ctx ?st1) (metadata ?st1) = (cs2, c2, md2)"
        using t2 by simp
      from Cons.IH [OF fo this] eq show ?thesis by simp
    qed
  qed
qed

lemma trial_run_shape:
  "trial_run up chs c md = (cs, c', md') \<Longrightarrow>
   (\<exists>k. map call_channel cs = take k chs)
   \<and> (\<forall>x\<in>set (butlast cs). is_failure (call_result x))
   \<and> (chs \<noteq> [] \<longrightarrow> cs \<noteq> [])
   \<and> ((\<forall>x\<in>set cs. is_failure (call_result x)) \<longrightarrow> map call_channel cs = chs)"
proof (induction chs arbitrary: c md cs c' md')
  case Nil
  then show ?case by simp
next
  case (Cons ch rest)
  obtain r1 c1 md1 where u: "up ch c md = (r1, c1, md1)" by (cases "up ch c md")
  show ?case
  proof (cases "is_failure r1")
    case False
    then have "cs = [Call ch (serverCompress c) r1]"
      using Cons.prems u by simp
    then show ?thesis using False by (auto intro: exI [of _ 1])
  next
    case True
    obtain cs2 c2 md2 where t2: "trial_run up rest c1 md1 = (cs2, c2, md2)"
      by (cases "trial_run up rest c1 md1")
    have eq: "cs = Call ch (serverCompress c) r1 # cs2"
      using Cons.prems u True t2 by simp
    from Cons.IH [OF t2] obtain k where ih:
      "map call_channel cs2 = take k rest"
      "\<forall>x\<in>set (butlast cs2). is_failure (call_result x)"
      "(\<forall>x\<in>set cs2. is_failure (call_result x)) \<longrightarrow> map call_channel cs2 = rest"
      by blast
    have 1: "map call_channel cs = take (Suc k) (ch # rest)" using ih(1) eq by simp
    have 2: "\<forall>x\<in>set (butlast cs). is_failure (call_result x)"
      using ih(2) True eq by auto
    have 3: "(\<forall>x\<in>set cs. is_failure (call_result x)) \<longrightarrow> map call_channel cs = ch # rest"
      using ih(3) eq by simp
    show ?thesis using 1 2 3 eq by blast
  qed
qed

lemma tryRetry_trial:
  assumes hu: "has_uploader ch" and run: "tryRetry up S err ch st = (r, st')"
    and plan: "trial_run up (ch # filter (\<lambda>x. x \<noteq> ch) channelList)
                 ((ctx st) \<lparr> serverCompress := Some (asc ''false'') \<rparr>) (metadata st) = (cs, c', md')"
  shows "calls st' = calls st @ cs \<and> ctx st' = c' \<and> metadata st' = md'"
proof -
  let ?c = "(ctx st) \<lparr> serverCompress := Some (asc ''false'') \<rparr>"
  let ?st1 = "st \<lparr> ctx := ?c \<rparr>"
  obtain r1 c1 md1 where u: "up ch ?c (metadata st) = (r1, c1, md1)"
    by (cases "up ch ?c (metadata st)")
  let ?call = "Call ch (Some (asc ''false'')) r1"
  let ?st2 = "\<lparr> ctx = c1, metadata = md1, calls = calls st @ [?call] \<rparr>"
  have a: "attempt up ch ?st1 = (r1, ?st2)"
    using u by (simp add: attempt_def)
  show ?thesis
  proof (cases "is_failure r1")
    case False
    then have "st' = ?st2"
      using run hu a by (auto simp: tryRetry_def Let_def split: sum.splits if_splits)
    moreover have "cs = [?call] \<and> c' = c1 \<and> md' = md1"
      using plan False u by simp
    ultimately show ?thesis by simp
  next
    case True
    then obtain res where r1: "r1 = Inr res" "status res \<noteq> 200" by (cases r1) auto
    obtain errs where fo: "failover up S ch channelList errs ?st2 = (r, st')"
      using run hu a r1 by (simp add: tryRetry_def Let_def)
    obtain cs2 c2 md2 where t2:
      "trial_run up (filter (\<lambda>x. x \<noteq> ch) channelList) c1 md1 = (cs2, c2, md2)"
      by (cases "trial_run up (filter (\<lambda>x. x \<noteq> ch) channelList) c1 md1")
    have eq: "cs = ?call # cs2 \<and> c' = c2 \<and> md' = md2"
      using plan True u t2 by simp
    have "trial_run up (eligible ch channelList) (ctx ?st2) (metadata ?st2) = (cs2, c2, md2)"
      using t2 by (simp add: eligible_channelList)
    from failover_trial [OF fo this] eq show ?thesis by simp
  qed
qed

lemma all_but_last:
  "\<forall>x\<in>set (butlast xs). P x \<Longrightarrow> xs \<noteq> [] \<Longrightarrow> P (last xs) \<Longrightarrow> \<forall>x\<in>set xs. P x"
  by (cases xs rule: rev_cases) auto


lemma processFileUpload_trial:
  assumes ok: "form_file req = Some file" "f_type file = Some ty" "f_name file = Some nm"
      and ch: "select_channel (q_uploadChannel req) = ch" "ch \<noteq> External"
      and first: "up ch \<lparr> serverCompress = q_serverCompress req, world = w \<rparr>
                     (initial_metadata req nm ty (f_size file)) = (r0, c1, md1)"
      and plan: "trial_run up (ch # filter (\<lambda>x. x \<noteq> ch) channelList)
                   (c1 \<lparr> serverCompress := Some (asc ''false'') \<rparr>) md1 = (cs, c', md')"
  shows "(\<not> is_failure r0 \<or> q_autoRetry req = Some (asc ''false'') \<longrightarrow>
            processFileUpload up S req w = (r0, c1, [Call ch (q_serverCompress req) r0]))
       \<and> (is_failure r0 \<and> q_autoRetry req \<noteq> Some (asc ''false'') \<longrightarrow>
            (\<exists>r. processFileUpload up S req w = (r, c', Call ch (q_serverCompress req) r0 # cs)
               \<and> (\<not> is_failure (call_result (last cs)) \<longrightarrow> r = call_result (last cs))
               \<and> (is_failure (call_result (last cs)) \<longrightarrow>
                    (\<exists>errs. r = Inr \<lparr> status = 500, body = Json_object errs \<rparr>)))
          \<and> (\<exists>r1 rest. cs = Call ch (Some (asc ''false'')) r1 # rest
               \<and> r1 = fst (up ch (c1 \<lparr> serverCompress := Some (asc ''false'') \<rparr>) md1)
               \<and> (\<not> is_failure r1 \<longrightarrow> rest = [])
               \<and> (\<exists>k. map call_channel rest = take k (filter (\<lambda>x. x \<noteq> ch) channelList))
               \<and> (\<forall>x\<in>set (butlast rest). is_failure (call_result x))
               \<and> (is_failure r1 \<and> (\<forall>x\<in>set rest. is_failure (call_result x)) \<longrightarrow>
                     map call_channel rest = filter (\<lambda>x. x \<noteq> ch) channelList))
          \<and> (\<forall>f. count_list (map call_channel (Call ch (q_serverCompress req) r0 # cs)) f \<le> 2)
          \<and> set (map call_channel (Call ch (q_serverCompress req) r0 # cs)) \<subseteq> set channelList)"
proof (intro conjI impI)
  let ?c0 = "\<lparr> serverCompress = q_serverCompress req, world = w \<rparr>"
  let ?st0 = "\<lparr> ctx = ?c0, metadata = initial_metadata req nm ty (f_size file), calls = [] \<rparr>"
  let ?call0 = "Call ch (q_serverCompress req) r0"
  let ?st1 = "\<lparr> ctx = c1, metadata = md1, calls = [?call0] \<rparr>"
  have a: "attempt up ch ?st0 = (r0, ?st1)"
    using first by (simp add: attempt_def)
  {
    assume "\<not> is_failure r0 \<or> q_autoRetry req = Some (asc ''false'')"
    then show "processFileUpload up S req w = (r0, c1, [?call0])"
      using ok ch a
      by (cases r0) (auto simp: processFileUpload_def Let_def)
  }
  assume "is_failure r0 \<and> q_autoRetry req \<noteq> Some (asc ''false'')"
  then have f0: "is_failure r0" and ar: "q_autoRetry req \<noteq> Some (asc ''false'')" by simp_all
  then obtain res0 where r0: "r0 = Inr res0" "status res0 \<noteq> 200" by (cases r0) auto
  obtain r st' where t: "tryRetry up S (res_text S res0) ch ?st1 = (r, st')"
    by (cases "tryRetry up S (res_text S res0) ch ?st1")
  have run: "processFileUpload up S req w = (r, ctx st', calls st')"
    using ok ar ch a r0 t by (simp add: processFileUpload_def Let_def)
  have hu: "has_uploader ch" using ch(2) by (simp add: has_uploader_iff)
  have pl: "trial_run up (ch # filter (\<lambda>x. x \<noteq> ch) channelList)
              ((ctx ?st1) \<lparr> serverCompress := Some (asc ''false'') \<rparr>) (metadata ?st1) = (cs, c', md')"
    using plan by simp
  have tt: "calls st' = calls ?st1 @ cs \<and> ctx st' = c' \<and> metadata st' = md'"
    using hu t pl by (rule tryRetry_trial)
  then have run': "processFileUpload up S req w = (r, c', ?call0 # cs)"
    using run by simp
  from tryRetry_calls [OF hu t] obtain r1 where "\<exists>rest. calls st' = calls ?st1 @ Call ch (Some (asc ''false'')) r1 # rest
      \<and> (\<not> is_failure r1 \<longrightarrow> rest = [] \<and> r = r1)
      \<and> (\<exists>k. map call_channel rest = take k (filter (\<lambda>x. x \<noteq> ch) channelList))
      \<and> (\<forall>c\<in>set (butlast rest). is_failure (call_result c))
      \<and> (rest \<noteq> [] \<and> \<not> is_failure (call_result (last rest)) \<longrightarrow> r = call_result (last rest))
      \<and> (is_failure r1 \<and> (\<forall>c\<in>set rest. is_failure (call_result c)) \<longrightarrow>
            map call_channel rest = filter (\<lambda>x. x \<noteq> ch) channelList
            \<and> (\<exists>errs'. r = Inr \<lparr> status = 500, body = Json_object errs' \<rparr>
                  \<and> map fst errs' = channel_name ch # (channel_name ch @ asc ''_retry'')
                                      # map channel_name (filter (\<lambda>x. x \<noteq> ch) channelList)
                  \<and> (\<forall>p\<in>set errs'. snd p \<noteq> [])))" ..
  then obtain rest where all: "calls st' = calls ?st1 @ Call ch (Some (asc ''false'')) r1 # rest
      \<and> (\<not> is_failure r1 \<longrightarrow> rest = [] \<and> r = r1)
      \<and> (\<exists>k. map call_channel rest = take k (filter (\<lambda>x. x \<noteq> ch) channelList))
      \<and> (\<forall>c\<in>set (butlast rest). is_failure (call_result c))
      \<and> (rest \<noteq> [] \<and> \<not> is_failure (call_result (last rest)) \<longrightarrow> r = call_result (last rest))
      \<and> (is_failure r1 \<and> (\<forall>c\<in>set rest. is_failure (call_result c)) \<longrightarrow>
            map call_channel rest = filter (\<lambda>x. x \<noteq> ch) channelList
            \<and> (\<exists>errs'. r = Inr \<lparr> status = 500, body = Json_object errs' \<rparr>
                  \<and> map fst errs' = channel_name ch # (channel_name ch @ asc ''_retry'')
                                      # map channel_name (filter (\<lambda>x. x \<noteq> ch) channelList)
                  \<and> (\<forall>p\<in>set errs'. snd p \<noteq> [])))" ..
  note tc = conjunct1 [OF all] conjunct1 [OF conjunct2 [OF all]]
    conjunct1 [OF conjunct2 [OF conjunct2 [OF all]]]
    conjunct1 [OF conjunct2 [OF conjunct2 [OF conjunct2 [OF all]]]]
    conjunct1 [OF conjunct2 [OF conjunct2 [OF conjunct2 [OF conjunct2 [OF all]]]]]
    conjunct2 [OF conjunct2 [OF conjunct2 [OF conjunct2 [OF conjunct2 [OF all]]]]]
  have cs: "cs = Call ch (Some (asc ''false'')) r1 # rest"
    using tt tc(1) by simp
  have r1: "r1 = fst (up ch (c1 \<lparr> serverCompress := Some (asc ''false'') \<rparr>) md1)"
  proof -
    obtain ra ca ma where u: "up ch (c1 \<lparr> serverCompress := Some (asc ''false'') \<rparr>) md1 = (ra, ca, ma)"
      by (cases "up ch (c1 \<lparr> serverCompress := Some (asc ''false'') \<rparr>) md1")
    obtain xs cb mb where v: "trial_run up (filter (\<lambda>x. x \<noteq> ch) channelList) ca ma = (xs, cb, mb)"
      by (cases "trial_run up (filter (\<lambda>x. x \<noteq> ch) channelList) ca ma")
    have "hd cs = Call ch (Some (asc ''false'')) ra"
      using plan u v by (cases "is_failure ra") auto
    then show ?thesis using cs u by simp
  qed
  have ok_last: "\<not> is_failure (call_result (last cs)) \<longrightarrow> r = call_result (last cs)"
    using tc(2,5) cs by (cases "rest = []") auto
  have bad_last: "is_failure (call_result (last cs)) \<longrightarrow>
                    (\<exists>errs. r = Inr \<lparr> status = 500, body = Json_object errs \<rparr>)"
  proof
    assume fl: "is_failure (call_result (last cs))"
    show "\<exists>errs. r = Inr \<lparr> status = 500, body = Json_object errs \<rparr>"
    proof (cases "rest = []")
      case True
      then have "is_failure r1" using fl cs by simp
      then show ?thesis using tc(6) True by auto
    next
      case False
      then have "is_failure (call_result (last rest))" using fl cs by simp
      with tc(4) False have all: "\<forall>x\<in>set rest. is_failure (call_result x)"
        by (rule all_but_last)
      have "is_failure r1" using tc(2) False by auto
      then show ?thesis using tc(6) all by auto
    qed
  qed
  show "\<exists>r. processFileUpload up S req w = (r, c', ?call0 # cs)
               \<and> (\<not> is_failure (call_result (last cs)) \<longrightarrow> r = call_result (last cs))
               \<and> (is_failure (call_result (last cs)) \<longrightarrow>
                    (\<exists>errs. r = Inr \<lparr> status = 500, body = Json_object errs \<rparr>))"
    using run' ok_last bad_last by (intro exI [of _ r] conjI)
  obtain k where k: "map call_channel rest = take k (filter (\<lambda>x. x \<noteq> ch) channelList)"
    using tc(3) ..
  have t2: "\<not> is_failure r1 \<longrightarrow> rest = []" using tc(2) by simp
  have t6: "is_failure r1 \<and> (\<forall>x\<in>set rest. is_failure (call_result x)) \<longrightarrow>
              map call_channel rest = filter (\<lambda>x. x \<noteq> ch) channelList"
    using tc(6) by simp
  show "\<exists>r1 rest. cs = Call ch (Some (asc ''false'')) r1 # rest
               \<and> r1 = fst (up ch (c1 \<lparr> serverCompress := Some (asc ''false'') \<rparr>) md1)
               \<and> (\<not> is_failure r1 \<longrightarrow> rest = [])
               \<and> (\<exists>k. map call_channel rest = take k (filter (\<lambda>x. x \<noteq> ch) channelList))
               \<and> (\<forall>x\<in>set (butlast rest). is_failure (call_result x))
               \<and> (is_failure r1 \<and> (\<forall>x\<in>set rest. is_failure (call_result x)) \<longrightarrow>
                     map call_channel rest = filter (\<lambda>x. x \<noteq> ch) channelList)"
    using cs r1 t2 tc(3) tc(4) t6 by (intro exI [of _ r1] exI [of _ rest] conjI)
  show "\<forall>f. count_list (map call_channel (?call0 # cs)) f \<le> 2"
  proof
    fix f
    show "count_list (map call_channel (?call0 # cs)) f \<le> 2"
      using others_count [of k ch f] by (cases "f = ch") (simp_all add: cs k)
  qed
  have "ch \<in> set channelList"
    using hu by (auto simp: has_uploader_def channelList_def)
  moreover have "set (take k (filter (\<lambda>x. x \<noteq> ch) channelList)) \<subseteq> set channelList"
    by (auto dest: in_set_takeD)
  ultimately show "set (map call_channel (?call0 # cs)) \<subseteq> set channelList"
    by (simp add: cs k)
qed







lemma processFileUpload_first_call:
  assumes ok: "form_file req = Some file" "f_type file = Some ty" "f_name file = Some nm"
  shows "\<exists>rest. snd (snd (processFileUpload up S req w))
           = Call (select_channel (q_uploadChannel req)) (q_serverCompress req)
               (fst (up (select_channel (q_uploadChannel req))
                       \<lparr> serverCompress = q_serverCompress req, world = w \<rparr>
                       (initial_metadata req nm ty (f_size file)))) # rest"
proof -
  let ?ch = "select_channel (q_uploadChannel req)"
  let ?st0 = "\<lparr> ctx = \<lparr> serverCompress = q_serverCompress req, world = w \<rparr>,
                  metadata = initial_metadata req nm ty (f_size file), calls = [] \<rparr>"
  obtain r0 st1 where a: "attempt up ?ch ?st0 = (r0, st1)" by (cases "attempt up ?ch ?st0")
  have c1: "calls st1 = [Call ?ch (q_serverCompress req) r0]"
    using attempt_calls [OF a] by simp
  have r0: "r0 = fst (up ?ch \<lparr> serverCompress = q_serverCompress req, world = w \<rparr>
                       (initial_metadata req nm ty (f_size file)))"
    using a by (auto simp: attempt_def split: prod.splits)
  show ?thesis
  proof (cases "?ch \<noteq> External \<and> is_failure r0 \<and> q_autoRetry req \<noteq> Some (asc ''false'')")
    case False
    then have "snd (snd (processFileUpload up S req w)) = calls st1"
      using ok a
      by (cases r0) (auto simp: processFileUpload_def Let_def split: if_splits)
    then show ?thesis using c1 r0 by simp
  next
    case True
    then obtain res0 where res0: "r0 = Inr res0" "status res0 \<noteq> 200" by (cases r0) auto
    obtain r' st' where t: "tryRetry up S (res_text S res0) ?ch st1 = (r', st')"
      by (cases "tryRetry up S (res_text S res0) ?ch st1")
    from tryRetry_log [OF t] obtain cs where "calls st' = calls st1 @ cs" by blast
    moreover have "snd (snd (processFileUpload up S req w)) = calls st'"
      using ok a res0 t True by (simp add: processFileUpload_def Let_def)
    ultimately show ?thesis using c1 r0 by simp
  qed
qed

lemma select_channel_default:
  "q \<notin> Some ` {asc ''telegram'', asc ''cfr2'', asc ''s3'', asc ''discord'', asc ''huggingface'',
                asc ''external''} \<Longrightarrow> select_channel q = TelegramNew"
  by (auto simp: select_channel_def)

text \<open>
  Claim C9. When the query parameter \<open>uploadChannel\<close> is absent or is none of the
  six recognised values, the channel is TelegramNew: the request is handled exactly as
  one that asks for \<open>telegram\<close>, and for a file with a type and a name the first
  call is the Telegram upload. The request is not rejected: when that upload does not
  return a failure response, or auto-retry is off, the result of the Telegram upload is
  the result of the request, its context the final context, and it is the only call;
  otherwise the request goes on as every failed Telegram upload does, with the trial
  over Telegram again and the other families, and answers with the result of the last
  call of that trial, or with status 500 when that call fails as well.
\<close>

theorem unrecognized_channel_goes_to_telegram:
  assumes "q_uploadChannel req \<notin> Some ` {asc ''telegram'', asc ''cfr2'', asc ''s3'',
             asc ''discord'', asc ''huggingface'', asc ''external''}"
      and "form_file req = Some file" "f_type file = Some ty" "f_name file = Some nm"
      and first: "up TelegramNew \<lparr> serverCompress = q_serverCompress req, world = w \<rparr>
                     (initial_metadata req nm ty (f_size file)) = (r0, c1, md1)"
      and plan: "trial_run up (TelegramNew # filter (\<lambda>x. x \<noteq> TelegramNew) channelList)
                   (c1 \<lparr> serverCompress := Some (asc ''false'') \<rparr>) md1 = (cs, c', md')"
  shows "select_channel (q_uploadChannel req) = TelegramNew
     \<and> (\<exists>rest. snd (snd (processFileUpload up S req w))
           = Call TelegramNew (q_serverCompress req)
               (fst (up TelegramNew \<lparr> serverCompress = q_serverCompress req, world = w \<rparr>
                       (initial_metadata req nm ty (f_size file)))) # rest)
     \<and> processFileUpload up S req w
         = processFileUpload up S (req \<lparr> q_uploadChannel := Some (asc ''telegram'') \<rparr>) w
     \<and> (\<not> is_failure r0 \<or> q_autoRetry req = Some (asc ''false'') \<longrightarrow>
            processFileUpload up S req w = (r0, c1, [Call TelegramNew (q_serverCompress req) r0]))
     \<and> (is_failure r0 \<and> q_autoRetry req \<noteq> Some (asc ''false'') \<longrightarrow>
            (\<exists>r. processFileUpload up S req w
                    = (r, c', Call TelegramNew (q_serverCompress req) r0 # cs)
               \<and> (\<not> is_failure (call_result (last cs)) \<longrightarrow> r = call_result (last cs))
               \<and> (is_failure (call_result (last cs)) \<longrightarrow>
                    (\<exists>errs. r = Inr \<lparr> status = 500, body = Json_object errs \<rparr>))))"
proof -
  have sel: "select_channel (q_uploadChannel req) = TelegramNew"
    using assms(1) by (rule select_channel_default)
  have tg: "select_channel (Some (asc ''telegram'')) = TelegramNew"
    by (simp add: select_channel_def)
  have same: "processFileUpload up S req w
         = processFileUpload up S (req \<lparr> q_uploadChannel := Some (asc ''telegram'') \<rparr>) w"
    by (simp add: processFileUpload_def Let_def sel tg initial_metadata_def
          split: option.split prod.split)
  have ne: "TelegramNew \<noteq> External" by simp
  note run = processFileUpload_trial [OF assms(2,3,4) sel ne first plan, of S]
  have fc: "\<exists>rest. snd (snd (processFileUpload up S req w))
           = Call TelegramNew (q_serverCompress req)
               (fst (up TelegramNew \<lparr> serverCompress = q_serverCompress req, world = w \<rparr>
                       (initial_metadata req nm ty (f_size file)))) # rest"
    using processFileUpload_first_call [OF assms(2,3,4), of up S w] sel by simp
  have c5: "is_failure r0 \<and> q_autoRetry req \<noteq> Some (asc ''false'') \<longrightarrow>
            (\<exists>r. processFileUpload up S req w
                    = (r, c', Call TelegramNew (q_serverCompress req) r0 # cs)
               \<and> (\<not> is_failure (call_result (last cs)) \<longrightarrow> r = call_result (last cs))
               \<and> (is_failure (call_result (last cs)) \<longrightarrow>
                    (\<exists>errs. r = Inr \<lparr> status = 500, body = Json_object errs \<rparr>)))"
  proof
    assume "is_failure r0 \<and> q_autoRetry req \<noteq> Some (asc ''false'')"
    with conjunct2 [OF run] show "\<exists>r. processFileUpload up S req w
                    = (r, c', Call TelegramNew (q_serverCompress req) r0 # cs)
               \<and> (\<not> is_failure (call_result (last cs)) \<longrightarrow> r = call_result (last cs))
               \<and> (is_failure (call_result (last cs)) \<longrightarrow>
                    (\<exists>errs. r = Inr \<lparr> status = 500, body = Json_object errs \<rparr>))"
      by (rule conjunct1 [OF mp])
  qed
  show ?thesis
    using sel fc same conjunct1 [OF run] c5
    by (intro conjI)
qed


text \<open>
  A request for the channel \<open>ftp\<close>: with Telegram storing the file the answer is
  Telegram's response after one call; with every family down, Telegram is called
  twice, then the four others, and the answer has status 500.
\<close>

theorem unrecognized_channel_goes_to_telegram_witness:
  "select_channel (q_uploadChannel unknown_request) = TelegramNew
   \<and> (\<exists>rest. snd (snd (processFileUpload only_telegram_up no_stringify unknown_request ()))
         = Call TelegramNew None (Inr stored) # rest)
   \<and> \<not> is_failure (Inr stored)
   \<and> processFileUpload only_telegram_up no_stringify unknown_request () =
       (Inr stored, \<lparr> serverCompress = None, world = () \<rparr>, [Call TelegramNew None (Inr stored)])
   \<and> is_failure (Inr down)
   \<and> (\<exists>errs. processFileUpload all_down no_stringify unknown_request () =
       (Inr \<lparr> status = 500, body = Json_object errs \<rparr>,
        \<lparr> serverCompress = Some (asc ''false''), world = () \<rparr>,
        [Call TelegramNew None (Inr down), Call TelegramNew (Some (asc ''false'')) (Inr down),
         Call CloudflareR2 (Some (asc ''false'')) (Inr down),
         Call S3 (Some (asc ''false'')) (Inr down),
         Call HuggingFace (Some (asc ''false'')) (Inr down),
         Call Discord (Some (asc ''false'')) (Inr down)]))"
proof -
  have h1: "q_uploadChannel unknown_request \<notin> Some ` {asc ''telegram'', asc ''cfr2'', asc ''s3'',
             asc ''discord'', asc ''huggingface'', asc ''external''}"
    by (simp add: unknown_request_def asc_Cons asc_Nil image_iff)
  have h2: "form_file unknown_request = Some png_file"
    by (simp add: unknown_request_def)
  have h3: "f_type png_file = Some (asc ''image/png'')"
    by (simp add: png_file_def)
  have h4: "f_name png_file = Some (asc ''art//a.png'')"
    by (simp add: png_file_def)
  have h5: "q_serverCompress unknown_request = None"
    by (simp add: unknown_request_def)
  have ar: "q_autoRetry unknown_request \<noteq> Some (asc ''false'')"
    by (simp add: unknown_request_def)
  have h6: "fst (only_telegram_up TelegramNew c md) = Inr stored" for c md
    by (simp add: only_telegram_up_def)
  let ?md = "initial_metadata unknown_request (asc ''art//a.png'') (asc ''image/png'') (f_size png_file)"
  have u1: "only_telegram_up TelegramNew \<lparr> serverCompress = q_serverCompress unknown_request, world = () \<rparr> ?md
            = (Inr stored, \<lparr> serverCompress = None, world = () \<rparr>, ?md)"
    by (simp add: only_telegram_up_def unknown_request_def)
  have u2: "all_down TelegramNew \<lparr> serverCompress = q_serverCompress unknown_request, world = () \<rparr> ?md
            = (Inr down, \<lparr> serverCompress = None, world = () \<rparr>, ?md)"
    by (simp add: all_down_def unknown_request_def)
  obtain cs c' md' where p1:
    "trial_run only_telegram_up (TelegramNew # filter (\<lambda>x. x \<noteq> TelegramNew) channelList)
       (\<lparr> serverCompress = None, world = () \<rparr> \<lparr> serverCompress := Some (asc ''false'') \<rparr>) ?md
     = (cs, c', md')"
    by (rule prod_cases3)
  have p2: "trial_run all_down (TelegramNew # filter (\<lambda>x. x \<noteq> TelegramNew) channelList)
              (\<lparr> serverCompress = None, world = () \<rparr> \<lparr> serverCompress := Some (asc ''false'') \<rparr>) ?md
            = ([Call TelegramNew (Some (asc ''false'')) (Inr down),
                Call CloudflareR2 (Some (asc ''false'')) (Inr down),
                Call S3 (Some (asc ''false'')) (Inr down),
                Call HuggingFace (Some (asc ''false'')) (Inr down),
                Call Discord (Some (asc ''false'')) (Inr down)],
               \<lparr> serverCompress = Some (asc ''false''), world = () \<rparr>, ?md)"
    by (simp add: channelList_def all_down_def down_def)
  have fd: "is_failure (Inr down)" by (simp add: down_def)
  have ns: "\<not> is_failure (Inr stored)" by (simp add: stored_def)
  note a = unrecognized_channel_goes_to_telegram [OF h1 h2 h3 h4 u1 p1, of no_stringify]
  note b = unrecognized_channel_goes_to_telegram [OF h1 h2 h3 h4 u2 p2, of no_stringify]
  have a1: "select_channel (q_uploadChannel unknown_request) = TelegramNew"
    using a by (rule conjunct1)
  have a2: "\<exists>rest. snd (snd (processFileUpload only_telegram_up no_stringify unknown_request ()))
         = Call TelegramNew None (Inr stored) # rest"
    using conjunct1 [OF conjunct2 [OF a]] unfolding h5 h6 .
  have a4: "processFileUpload only_telegram_up no_stringify unknown_request () =
       (Inr stored, \<lparr> serverCompress = None, world = () \<rparr>, [Call TelegramNew None (Inr stored)])"
    using conjunct1 [OF conjunct2 [OF conjunct2 [OF conjunct2 [OF a]]]] ns unfolding h5 by simp
  have b5: "\<exists>errs. processFileUpload all_down no_stringify unknown_request () =
       (Inr \<lparr> status = 500, body = Json_object errs \<rparr>,
        \<lparr> serverCompress = Some (asc ''false''), world = () \<rparr>,
        [Call TelegramNew None (Inr down), Call TelegramNew (Some (asc ''false'')) (Inr down),
         Call CloudflareR2 (Some (asc ''false'')) (Inr down),
         Call S3 (Some (asc ''false'')) (Inr down),
         Call HuggingFace (Some (asc ''false'')) (Inr down),
         Call Discord (Some (asc ''false'')) (Inr down)])"
    using conjunct2 [OF conjunct2 [OF conjunct2 [OF conjunct2 [OF b]]]] fd ar unfolding h5
    by auto
  show ?thesis
    using a1 a2 ns a4 fd b5 by (intro conjI)
qed

lemma others_length: "ch \<noteq> External \<Longrightarrow> length (filter (\<lambda>x. x \<noteq> ch) channelList) = 4"
  by (cases ch) (simp_all add: channelList_def)

lemma keys_distinct:
  "ch \<noteq> External \<Longrightarrow>
   distinct (channel_name ch # (channel_name ch @ asc ''_retry'')
             # map channel_name (filter (\<lambda>x. x \<noteq> ch) channelList))"
  by (cases ch) (simp_all add: channelList_def asc_Cons asc_Nil)

lemma families_card:
  "ch \<noteq> External \<Longrightarrow> card (set (ch # ch # filter (\<lambda>x. x \<noteq> ch) channelList)) = 5"
  by (cases ch) (simp_all add: channelList_def)



text \<open>
  Claim C2, as the code has it. When every call of a request with auto-retry fails,
  the response has status 500 and its body is the object \<open>errMessages\<close>: one key
  for each family called and one more, \<open><family>_retry\<close>, for the retry of the
  original family. With the five families of \<open>channelList\<close> all called, these are
  six keys, pairwise different, each with a non-empty text.
\<close>

theorem aggregate_failure_keys:
  assumes ok: "form_file req = Some file" "f_type file = Some ty" "f_name file = Some nm"
      and ar: "q_autoRetry req \<noteq> Some (asc ''false'')"
      and ch: "select_channel (q_uploadChannel req) = ch" "ch \<noteq> External"
      and run: "processFileUpload up S req w = (r, c, log)"
      and fail: "\<forall>x\<in>set log. is_failure (call_result x)"
  shows "\<exists>errs. r = Inr \<lparr> status = 500, body = Json_object errs \<rparr>
      \<and> map fst errs = channel_name ch # (channel_name ch @ asc ''_retry'')
                        # map channel_name (filter (\<lambda>x. x \<noteq> ch) channelList)
      \<and> length errs = 6 \<and> distinct (map fst errs) \<and> (\<forall>p\<in>set errs. snd p \<noteq> [])
      \<and> map call_channel log = ch # ch # filter (\<lambda>x. x \<noteq> ch) channelList
      \<and> card (set (map call_channel log)) = 5"
proof -
  from processFileUpload_first_call [OF ok, of up S w] obtain c0 rest
    where "snd (snd (processFileUpload up S req w)) = c0 # rest"
    by blast
  then have ne: "log = c0 # rest"
    using run by simp
  then have first: "is_failure (call_result (hd log))"
    using fail by simp
  from processFileUpload_retry [OF ok ar ch run first] obtain res0 st1 st' where p:
    "status res0 \<noteq> 200" "calls st1 = [Call ch (q_serverCompress req) (Inr res0)]"
    "tryRetry up S (res_text S res0) ch st1 = (r, st')" "log = calls st'"
    by blast
  have hu: "has_uploader ch" using ch(2) by (simp add: has_uploader_iff)
  note tc = tryRetry_calls [OF hu p(3)]
  from tc obtain r1 where "\<exists>cs. calls st' = calls st1 @ Call ch (Some (asc ''false'')) r1 # cs
      \<and> (\<not> is_failure r1 \<longrightarrow> cs = [] \<and> r = r1)
      \<and> (\<exists>k. map call_channel cs = take k (filter (\<lambda>x. x \<noteq> ch) channelList))
      \<and> (\<forall>c\<in>set (butlast cs). is_failure (call_result c))
      \<and> (cs \<noteq> [] \<and> \<not> is_failure (call_result (last cs)) \<longrightarrow> r = call_result (last cs))
      \<and> (is_failure r1 \<and> (\<forall>c\<in>set cs. is_failure (call_result c)) \<longrightarrow>
            map call_channel cs = filter (\<lambda>x. x \<noteq> ch) channelList
            \<and> (\<exists>errs'. r = Inr \<lparr> status = 500, body = Json_object errs' \<rparr>
                  \<and> map fst errs' = channel_name ch # (channel_name ch @ asc ''_retry'')
                                      # map channel_name (filter (\<lambda>x. x \<noteq> ch) channelList)
                  \<and> (\<forall>p\<in>set errs'. snd p \<noteq> [])))" ..
  then obtain cs where t0: "calls st' = calls st1 @ Call ch (Some (asc ''false'')) r1 # cs
      \<and> (\<not> is_failure r1 \<longrightarrow> cs = [] \<and> r = r1)
      \<and> (\<exists>k. map call_channel cs = take k (filter (\<lambda>x. x \<noteq> ch) channelList))
      \<and> (\<forall>c\<in>set (butlast cs). is_failure (call_result c))
      \<and> (cs \<noteq> [] \<and> \<not> is_failure (call_result (last cs)) \<longrightarrow> r = call_result (last cs))
      \<and> (is_failure r1 \<and> (\<forall>c\<in>set cs. is_failure (call_result c)) \<longrightarrow>
            map call_channel cs = filter (\<lambda>x. x \<noteq> ch) channelList
            \<and> (\<exists>errs'. r = Inr \<lparr> status = 500, body = Json_object errs' \<rparr>
                  \<and> map fst errs' = channel_name ch # (channel_name ch @ asc ''_retry'')
                                      # map channel_name (filter (\<lambda>x. x \<noteq> ch) channelList)
                  \<and> (\<forall>p\<in>set errs'. snd p \<noteq> [])))" ..
  note t1 = conjunct1 [OF t0]
  note t6 = t0 [THEN conjunct2, THEN conjunct2, THEN conjunct2, THEN conjunct2, THEN conjunct2]
  have log: "log = Call ch (q_serverCompress req) (Inr res0) # Call ch (Some (asc ''false'')) r1 # cs"
    using p(2,4) t1 by simp
  have allfail: "is_failure r1 \<and> (\<forall>c\<in>set cs. is_failure (call_result c))"
    using fail unfolding log by simp
  note t7 = t6 [rule_format, OF allfail]
  note e1 = conjunct1 [OF t7]
  from conjunct2 [OF t7] obtain errs where e0:
    "r = Inr \<lparr> status = 500, body = Json_object errs \<rparr>
     \<and> map fst errs = channel_name ch # (channel_name ch @ asc ''_retry'')
                    # map channel_name (filter (\<lambda>x. x \<noteq> ch) channelList)
     \<and> (\<forall>p\<in>set errs. snd p \<noteq> [])" ..
  note e2 = conjunct1 [OF e0]
  note e3 = e0 [THEN conjunct2, THEN conjunct1]
  note e4 = e0 [THEN conjunct2, THEN conjunct2]
  have "length (map fst errs) = 6"
    unfolding e3 using others_length [OF ch(2)] by simp
  then have len: "length errs = 6" by simp
  have dist: "distinct (map fst errs)"
    unfolding e3 using ch(2) by (rule keys_distinct)
  have fam: "map call_channel log = ch # ch # filter (\<lambda>x. x \<noteq> ch) channelList"
    unfolding log using e1 by simp
  have card: "card (set (map call_channel log)) = 5"
    unfolding fam using ch(2) by (rule families_card)
  show ?thesis
    by (rule exI [of _ errs]) (intro conjI e2 e3 len dist e4 fam card)
qed



lemma all_down_retry_run:
  "tryRetry all_down S err Discord st =
     (Inr \<lparr> status = 500,
            body = Json_object
              [(asc ''Discord'', asc ''Error: Discord'' @ err),
               (asc ''Discord_retry'', asc ''Error: Discord retry - down''),
               (asc ''CloudflareR2'', asc ''Error: CloudflareR2down''),
               (asc ''TelegramNew'', asc ''Error: TelegramNewdown''),
               (asc ''S3'', asc ''Error: S3down''),
               (asc ''HuggingFace'', asc ''Error: HuggingFacedown'')] \<rparr>,
      st \<lparr> ctx := (ctx st) \<lparr> serverCompress := Some (asc ''false'') \<rparr>,
           calls := calls st @
             [Call Discord (Some (asc ''false'')) (Inr down),
              Call CloudflareR2 (Some (asc ''false'')) (Inr down),
              Call TelegramNew (Some (asc ''false'')) (Inr down),
              Call S3 (Some (asc ''false'')) (Inr down),
              Call HuggingFace (Some (asc ''false'')) (Inr down)] \<rparr>)"
  by (simp add: tryRetry_def Let_def has_uploader_def attempt_def all_down_def
       channelList_def down_def res_text_def asc_Cons asc_Nil)

lemma all_down_run:
  "processFileUpload all_down S discord_request () =
     (Inr \<lparr> status = 500,
            body = Json_object
              [(asc ''Discord'', asc ''Error: Discorddown''),
               (asc ''Discord_retry'', asc ''Error: Discord retry - down''),
               (asc ''CloudflareR2'', asc ''Error: CloudflareR2down''),
               (asc ''TelegramNew'', asc ''Error: TelegramNewdown''),
               (asc ''S3'', asc ''Error: S3down''),
               (asc ''HuggingFace'', asc ''Error: HuggingFacedown'')] \<rparr>,
      \<lparr> serverCompress = Some (asc ''false''), world = () \<rparr>,
      [Call Discord None (Inr down), Call Discord (Some (asc ''false'')) (Inr down),
       Call CloudflareR2 (Some (asc ''false'')) (Inr down),
       Call TelegramNew (Some (asc ''false'')) (Inr down),
       Call S3 (Some (asc ''false'')) (Inr down),
       Call HuggingFace (Some (asc ''false'')) (Inr down)])"
  by (simp add: processFileUpload_def Let_def discord_request_def png_file_def select_channel_def
        all_down_retry_run attempt_def all_down_def down_def res_text_def asc_Cons asc_Nil)


theorem aggregate_failure_keys_witness:
  "map (\<lambda>x. is_failure (call_result x)) (snd (snd (processFileUpload all_down no_stringify discord_request ())))
     = [True, True, True, True, True, True]
   \<and> (\<exists>errs. fst (processFileUpload all_down no_stringify discord_request ())
                 = Inr \<lparr> status = 500, body = Json_object errs \<rparr>
      \<and> map fst errs = channel_name Discord # (channel_name Discord @ asc ''_retry'')
                        # map channel_name (filter (\<lambda>x. x \<noteq> Discord) channelList)
      \<and> length errs = 6 \<and> distinct (map fst errs) \<and> (\<forall>p\<in>set errs. snd p \<noteq> [])
      \<and> map call_channel (snd (snd (processFileUpload all_down no_stringify discord_request ())))
          = Discord # Discord # filter (\<lambda>x. x \<noteq> Discord) channelList
      \<and> card (set (map call_channel
            (snd (snd (processFileUpload all_down no_stringify discord_request ()))))) = 5)"
proof -
  have h1: "form_file discord_request = Some png_file"
    by (simp add: discord_request_def)
  have h2: "f_type png_file = Some (asc ''image/png'')"
    by (simp add: png_file_def)
  have h3: "f_name png_file = Some (asc ''art//a.png'')"
    by (simp add: png_file_def)
  have h4: "q_autoRetry discord_request \<noteq> Some (asc ''false'')"
    by (simp add: discord_request_def)
  have h5: "select_channel (q_uploadChannel discord_request) = Discord"
    by (simp add: discord_request_def select_channel_def asc_Cons asc_Nil)
  have h6: "Discord \<noteq> External" by simp
  note run = all_down_run [of no_stringify]
  have h7: "\<forall>x\<in>set (snd (snd (processFileUpload all_down no_stringify discord_request ()))).
              is_failure (call_result x)"
    unfolding run by (simp add: down_def)
  have h8: "processFileUpload all_down no_stringify discord_request ()
     = (fst (processFileUpload all_down no_stringify discord_request ()),
        fst (snd (processFileUpload all_down no_stringify discord_request ())),
        snd (snd (processFileUpload all_down no_stringify discord_request ())))"
    by simp
  have fl: "map (\<lambda>x. is_failure (call_result x))
              (snd (snd (processFileUpload all_down no_stringify discord_request ())))
            = [True, True, True, True, True, True]"
    unfolding run by (simp add: down_def)
  from aggregate_failure_keys [OF h1 h2 h3 h4 h5 h6 h8 h7] fl show ?thesis
    by (rule_tac conjI)
qed

text \<open>
  Against claim C2 as it was stated: with every family down, five families are
  called and the object has six keys.
\<close>

theorem aggregate_keys_counterexample:
  "fst (processFileUpload all_down no_stringify discord_request ())
     = Inr \<lparr> status = 500,
             body = Json_object
               [(asc ''Discord'', asc ''Error: Discorddown''),
                (asc ''Discord_retry'', asc ''Error: Discord retry - down''),
                (asc ''CloudflareR2'', asc ''Error: CloudflareR2down''),
                (asc ''TelegramNew'', asc ''Error: TelegramNewdown''),
                (asc ''S3'', asc ''Error: S3down''),
                (asc ''HuggingFace'', asc ''Error: HuggingFacedown'')] \<rparr>
   \<and> map call_channel (snd (snd (processFileUpload all_down no_stringify discord_request ())))
       = [Discord, Discord, CloudflareR2, TelegramNew, S3, HuggingFace]
   \<and> card (set [Discord, Discord, CloudflareR2, TelegramNew, S3, HuggingFace]) = 5
   \<and> length [(asc ''Discord'', asc ''Error: Discorddown''),
                (asc ''Discord_retry'', asc ''Error: Discord retry - down''),
                (asc ''CloudflareR2'', asc ''Error: CloudflareR2down''),
                (asc ''TelegramNew'', asc ''Error: TelegramNewdown''),
                (asc ''S3'', asc ''Error: S3down''),
                (asc ''HuggingFace'', asc ''Error: HuggingFacedown'')] = 6"
  unfolding all_down_run by simp

section \<open>The directory of the metadata\<close>

lemma strip_leading_hd:
  "strip_leading_slashes s = [] \<or> hd (strip_leading_slashes s) \<noteq> SLASH"
  unfolding strip_leading_slashes_def using hd_dropWhile [of "\<lambda>c. c = SLASH" s] by auto

lemma collapse_Nil_iff: "collapse_slashes s = [] \<longleftrightarrow> s = []"
  by (induction s rule: collapse_slashes.induct) auto

lemma collapse_hd: "hd (collapse_slashes s) = hd s"
  by (induction s rule: collapse_slashes.induct) auto

lemma collapse_no_double: "no_double_slash (collapse_slashes s)"
proof (induction s rule: collapse_slashes.induct)
  case (1 x y r)
  show ?case
  proof (cases "x = SLASH \<and> y = SLASH")
    case True
    then show ?thesis using 1 by simp
  next
    case False
    have "collapse_slashes (y # r) \<noteq> []" by (simp add: collapse_Nil_iff)
    then obtain z zs where z: "collapse_slashes (y # r) = z # zs"
      by (cases "collapse_slashes (y # r)") auto
    have "z = y" using collapse_hd [of "y # r"] z by simp
    then show ?thesis using 1 False z by auto
  qed
qed simp_all

lemma no_double_butlast: "no_double_slash s \<Longrightarrow> no_double_slash (butlast s)"
  by (induction s rule: no_double_slash.induct) (auto split: if_splits)

lemma no_double_last:
  "no_double_slash s \<Longrightarrow> last s = SLASH \<Longrightarrow> butlast s \<noteq> [] \<Longrightarrow> last (butlast s) \<noteq> SLASH"
  by (induction s rule: no_double_slash.induct) (auto split: if_splits)

lemma no_double_snoc:
  "no_double_slash s \<Longrightarrow> s \<noteq> [] \<Longrightarrow> last s \<noteq> SLASH \<Longrightarrow> no_double_slash (s @ [c])"
  by (induction s rule: no_double_slash.induct) (auto split: if_splits)

lemma normalizedFolder_shape:
  "normalizedFolder u = [] \<or>
   (hd (normalizedFolder u) \<noteq> SLASH \<and> last (normalizedFolder u) \<noteq> SLASH
    \<and> no_double_slash (normalizedFolder u))"
proof (cases "normalizedFolder u = []")
  case True
  then show ?thesis by simp
next
  case False
  let ?a = "strip_leading_slashes u"
  let ?b = "collapse_slashes ?a"
  have nf: "normalizedFolder u = strip_trailing_slash ?b"
    using False by (auto simp: normalizedFolder_def)
  have bne: "?b \<noteq> []"
    using False nf by (auto simp: strip_trailing_slash_def)
  then have ane: "?a \<noteq> []" by (simp add: collapse_Nil_iff)
  have hdb: "hd ?b \<noteq> SLASH"
    using strip_leading_hd [of u] ane by (simp add: collapse_hd)
  have ndb: "no_double_slash ?b" by (rule collapse_no_double)
  show ?thesis
  proof (cases "last ?b = SLASH")
    case nolast: False
    then have "normalizedFolder u = ?b" using nf by (simp add: strip_trailing_slash_def)
    then show ?thesis using hdb ndb nolast by simp
  next
    case True
    then have eq: "normalizedFolder u = butlast ?b"
      using nf bne by (simp add: strip_trailing_slash_def)
    then have bl: "butlast ?b \<noteq> []" using False by simp
    have "hd (butlast ?b) = hd ?b"
      using bl by (cases ?b) auto
    moreover have "last (butlast ?b) \<noteq> SLASH"
      using ndb True bl by (rule no_double_last)
    moreover have "no_double_slash (butlast ?b)"
      using ndb by (rule no_double_butlast)
    ultimately show ?thesis using eq hdb by simp
  qed
qed

text \<open>
  Claim C5, as the code has it. The \<open>Directory\<close> of the metadata is empty, or it
  is the normalised folder followed by one slash: the normalised folder is not empty,
  does not begin or end with a slash and has no two slashes in a row, so
  \<open>Directory\<close> has no leading and no doubled slash and ends with exactly one.
\<close>

theorem directory_shape:
  "Directory (initial_metadata req fileName fileType n) = []
   \<or> (\<exists>nf. Directory (initial_metadata req fileName fileType n) = nf @ [SLASH]
          \<and> nf = normalizedFolder (upload_folder (q_uploadFolder req) fileName)
          \<and> nf \<noteq> [] \<and> hd nf \<noteq> SLASH \<and> last nf \<noteq> SLASH \<and> no_double_slash nf
          \<and> no_double_slash (nf @ [SLASH]))"
proof -
  let ?u = "upload_folder (q_uploadFolder req) fileName"
  have d: "Directory (initial_metadata req fileName fileType n) = directory_of ?u"
    by (simp add: initial_metadata_def)
  show ?thesis
  proof (cases "normalizedFolder ?u = []")
    case True
    then show ?thesis by (simp add: d directory_of_def)
  next
    case False
    then have s: "hd (normalizedFolder ?u) \<noteq> SLASH" "last (normalizedFolder ?u) \<noteq> SLASH"
      "no_double_slash (normalizedFolder ?u)"
      using normalizedFolder_shape [of ?u] by auto
    have "no_double_slash (normalizedFolder ?u @ [SLASH])"
      using s(3) False s(2) by (rule no_double_snoc)
    then show ?thesis using False s by (simp add: d directory_of_def)
  qed
qed


lemma directory_of_unknown_request:
  "Directory (initial_metadata unknown_request (asc ''art//a.png'') (asc ''image/png'') 2048)
     = asc ''a/b/''"
  by (simp add: initial_metadata_def unknown_request_def directory_of_def normalizedFolder_def
       upload_folder_def strip_leading_slashes_def strip_trailing_slash_def asc_Cons asc_Nil SLASH_def)

theorem directory_shape_witness:
  "Directory (initial_metadata unknown_request (asc ''art//a.png'') (asc ''image/png'') 2048)
     = asc ''a/b/''
   \<and> (\<exists>nf. asc ''a/b/'' = nf @ [SLASH] \<and> nf \<noteq> [] \<and> hd nf \<noteq> SLASH \<and> last nf \<noteq> SLASH
          \<and> no_double_slash nf \<and> no_double_slash (nf @ [SLASH]))"
proof -
  have "asc ''a/b/'' \<noteq> []" by (simp add: asc_Cons)
  with directory_shape [of unknown_request "asc ''art//a.png''" "asc ''image/png''" 2048]
  show ?thesis
    unfolding directory_of_unknown_request by blast
qed

text \<open>
  Against claim C5 as it was stated: the file name \<open>art//a.png\<close> with no folder
  parameter gives the directory \<open>art/\<close>, which ends with a slash.
\<close>

theorem directory_trailing_slash_counterexample:
  "Directory (initial_metadata discord_request (asc ''art//a.png'') (asc ''image/png'') 2048)
     = asc ''art/''
   \<and> last (asc ''art/'') = SLASH"
  by (simp add: initial_metadata_def discord_request_def directory_of_def normalizedFolder_def
       upload_folder_def strip_leading_slashes_def strip_trailing_slash_def asc_Cons asc_Nil SLASH_def)

section \<open>The size limit of the Discord upload\<close>

text \<open>
  Claim C6. On a Discord channel that can be used at all (one is configured, and the
  one picked has a bot token and a channel id), a file larger than the channel's limit
  (10 MiB, or 25 MiB with the Nitro flag) is answered with status 413 before anything
  is sent: no collaborator is called, and the metadata and the world are as they were.
\<close>

theorem discord_oversize_rejected:
  assumes "discordSettings = Some ds" and "ds_channels ds = Some chs" and "chs \<noteq> []"
      and "dch = pick_discord_channel ds chs specifiedChannelName rnd"
      and "truthy_str (dc_botToken dch)" and "truthy_str (dc_channelId dch)"
      and "fileSize > DISCORD_MAX_SIZE (dc_isNitro dch)"
  shows "uploadFileToDiscord A discordSettings specifiedChannelName rnd fileSize fullId
           returnLink md w
         = (\<lparr> status = 413,
               body = Text (asc ''Error: File size exceeds Discord limit (''
                            @ dec (if dc_isNitro dch then 25 else 10)
                            @ asc ''MB), please use another channel'') \<rparr>, md, w, [])
       \<and> DISCORD_MAX_SIZE False = 10 * 1024 * 1024 \<and> DISCORD_MAX_SIZE True = 25 * 1024 * 1024"
  using assms
  by (simp add: uploadFileToDiscord_def Let_def DISCORD_MAX_SIZE_def)

text \<open>
  Whatever the configuration, a file above 25 MiB is answered with 400 or 413 and
  nothing is sent.
\<close>

lemma discord_oversize_no_transfer:
  assumes "fileSize > 25 * 1024 * 1024"
  shows "\<exists>res. uploadFileToDiscord A discordSettings specifiedChannelName rnd fileSize fullId
                  returnLink md w = (res, md, w, [])
               \<and> (status res = 400 \<or> status res = 413)"
  using assms
  by (auto simp: uploadFileToDiscord_def Let_def DISCORD_MAX_SIZE_def split: option.splits)

theorem discord_oversize_rejected_witness:
  "truthy_str (dc_botToken free_channel) \<and> truthy_str (dc_channelId free_channel)
   \<and> \<not> dc_isNitro free_channel \<and> DISCORD_MAX_SIZE False < 30 * 1024 * 1024
   \<and> (\<exists>msg. uploadFileToDiscord idle_discord (Some (one_channel free_channel)) None 0
               (30 * 1024 * 1024) (asc ''id'') (asc ''/file/id'') big_file_metadata ()
             = (\<lparr> status = 413, body = Text msg \<rparr>, big_file_metadata, (), []))"
proof -
  have h1: "ds_channels (one_channel free_channel) = Some [free_channel]"
    by (simp add: one_channel_def)
  have h2: "free_channel = pick_discord_channel (one_channel free_channel) [free_channel] None 0"
    by (simp add: pick_discord_channel_def one_channel_def truthy_str_def)
  have h3: "truthy_str (dc_botToken free_channel)"
    by (simp add: free_channel_def truthy_str_def asc_Cons)
  have h4: "truthy_str (dc_channelId free_channel)"
    by (simp add: free_channel_def truthy_str_def asc_Cons)
  have h5: "\<not> dc_isNitro free_channel"
    by (simp add: free_channel_def)
  have h6: "DISCORD_MAX_SIZE False < 30 * 1024 * 1024"
    by (simp add: DISCORD_MAX_SIZE_def)
  then have h7: "30 * 1024 * 1024 > DISCORD_MAX_SIZE (dc_isNitro free_channel)"
    using h5 by simp
  from discord_oversize_rejected [OF refl h1 _ h2 h3 h4 h7, of idle_discord "asc ''id''"
         "asc ''/file/id''" big_file_metadata "()"]
  show ?thesis using h3 h4 h5 h6 by simp
qed

section \<open>The length of the preview caption\<close>

lemma length_headerStr: "length headerStr = 25"
  by (simp add: headerStr_def length_asc)

lemma length_footerStr:
  "length (footerStr a b c) = 40 + length a + length b + length c"
  by (simp add: footerStr_def length_asc)

lemma length_dec_digit: "n < 10 \<Longrightarrow> length (dec n) = 1"
  by (simp add: dec.simps)

lemma length_more_marker: "length more_marker = 22"
  by (simp add: more_marker_def length_asc)

lemma length_ellipsis: "length ellipsis = 3"
  by (simp add: ellipsis_def length_asc)

lemma preview_block_le: "idx < 9 \<Longrightarrow> length (preview_char_block idx c) \<le> length c + 27"
  by (simp add: preview_char_block_def length_asc fence_open_def fence_close_def
        length_dec_digit length_more_marker)

lemma preview_blocks_le:
  "n + length cs \<le> 9 \<Longrightarrow>
   length (concat (map (\<lambda>(i, c). preview_char_block i c) (enumerate n cs)))
     \<le> sum_list (map length cs) + 27 * length cs"
proof (induction cs arbitrary: n)
  case Nil
  then show ?case by simp
next
  case (Cons c cs)
  have "length (preview_char_block n c) \<le> length c + 27"
    using Cons.prems by (intro preview_block_le) simp
  moreover have "length (concat (map (\<lambda>(i, c). preview_char_block i c) (enumerate (Suc n) cs)))
     \<le> sum_list (map length cs) + 27 * length cs"
    using Cons.prems by (intro Cons.IH) simp
  ultimately show ?case by simp
qed

lemma foldl_len: "foldl (\<lambda>s c. s + length c) a cs = a + sum_list (map length cs)"
  by (induction cs arbitrary: a) auto

lemma foldl_len30:
  "foldl (\<lambda>s c. s + length c + 30) a cs = a + sum_list (map length cs) + 30 * length cs"
  by (induction cs arbitrary: a) auto

lemma shorten_uc_le: "length (shorten_uc u) \<le> 53"
  by (simp add: shorten_uc_def substring0_def length_ellipsis)

lemma sum_list_bounded: "(\<forall>x\<in>set xs. f x \<le> b) \<Longrightarrow> sum_list (map f xs) \<le> b * length xs"
  by (induction xs) auto

lemma shorten_chars_length: "length (shorten_chars cs) \<le> 4"
  by (simp add: shorten_chars_def Let_def)

lemma shorten_chars_sum:
  "sum_list (map length (shorten_chars cs)) + 30 * length (shorten_chars cs) \<le> 391"
proof -
  let ?f = "\<lambda>c. if length c > 80 then substring0 c 80 @ ellipsis else c"
  let ?pc = "map ?f (take 3 cs)"
  have "\<forall>x\<in>set ?pc. length x \<le> 83"
    by (auto simp: substring0_def length_ellipsis)
  then have "sum_list (map length ?pc) \<le> 83 * length ?pc"
    by (rule sum_list_bounded)
  moreover have "length ?pc \<le> 3" by simp
  ultimately have a: "sum_list (map length ?pc) + 30 * length ?pc \<le> 339"
    by linarith
  have sc: "shorten_chars cs = (if 3 < length cs then ?pc @ [more_marker] else ?pc)"
    by (simp add: shorten_chars_def Let_def)
  show ?thesis
  proof (cases "3 < length cs")
    case True
    then have "shorten_chars cs = ?pc @ [more_marker]" by (simp only: sc if_True)
    then have "sum_list (map length (shorten_chars cs)) + 30 * length (shorten_chars cs)
                 = sum_list (map length ?pc) + 30 * length ?pc + 52"
      by (simp only: map_append sum_list_append length_append list.map sum_list.Cons
            sum_list.Nil length_more_marker list.size) simp
    then show ?thesis using a by linarith
  next
    case False
    then have "shorten_chars cs = ?pc" by (simp only: sc if_False)
    then show ?thesis using a by (simp only:)
  qed
qed

lemma length_assemble_caption:
  "length (assemble_caption F p cs u) =
     46 + length p + length (concat (map (\<lambda>(i, c). preview_char_block i c) (enumerate 0 cs)))
     + (if u \<noteq> [] then 23 + length u else 0) + length F"
  by (simp add: assemble_caption_def length_headerStr length_asc fence_open_def fence_close_def)

lemma shorten_prompt_le:
  "0 < remaining \<Longrightarrow> int (length (shorten_prompt remaining p)) \<le> remaining + 3"
  by (auto simp: shorten_prompt_def substring0_def length_ellipsis)

lemma availableChars_small_footer:
  "length F \<le> 474 \<Longrightarrow> availableChars F = 919 - int (length F)"
  by (simp add: availableChars_def Let_def MAX_CAPTION_def length_headerStr)

lemma caption_truncated_le:
  assumes F: "length F \<le> 474" and tr: "isTruncated F p u cs"
  shows "length (caption_of F p u cs) \<le> 1024"
proof -
  let ?u = "shorten_uc u"
  let ?cs = "shorten_chars cs"
  let ?used = "length ?u + foldl (\<lambda>s c. s + length c + 30) 0 ?cs"
  let ?rem = "availableChars F - int ?used"
  let ?p = "shorten_prompt ?rem p"
  have cap: "caption_of F p u cs = assemble_caption F ?p ?cs ?u"
    using tr by (simp add: caption_of_def Let_def)
  have used: "?used = length ?u + sum_list (map length ?cs) + 30 * length ?cs"
    by (simp add: foldl_len30)
  have "?used \<le> 444"
    using shorten_uc_le [of u] shorten_chars_sum [of cs] unfolding used by linarith
  then have rem: "0 < ?rem"
    using F by (simp add: availableChars_small_footer)
  have p: "int (length ?p) \<le> ?rem + 3"
    using rem by (rule shorten_prompt_le)
  have "0 + length ?cs \<le> 9" using shorten_chars_length [of cs] by simp
  then have blocks: "length (concat (map (\<lambda>(i, c). preview_char_block i c) (enumerate 0 ?cs)))
       \<le> sum_list (map length ?cs) + 27 * length ?cs"
    by (rule preview_blocks_le)
  have av: "availableChars F = 919 - int (length F)"
    using F by (rule availableChars_small_footer)
  have ucb: "(if ?u \<noteq> [] then 23 + length ?u else 0) \<le> 23 + length ?u"
    by simp
  define P where "P = length ?p"
  define B where "B = length (concat (map (\<lambda>(i, c). preview_char_block i c) (enumerate 0 ?cs)))"
  define U where "U = length ?u"
  define N where "N = (if ?u \<noteq> [] then 23 + length ?u else 0)"
  define T where "T = sum_list (map length ?cs)"
  define K where "K = length ?cs"
  define L where "L = length F"
  have 1: "int P \<le> 919 - int L - int (U + T + 30 * K) + 3"
    using p unfolding used av P_def U_def T_def K_def L_def by simp
  have 2: "B \<le> T + 27 * K"
    using blocks unfolding B_def T_def K_def by simp
  have 3: "N \<le> 23 + U"
    using ucb unfolding N_def U_def by simp
  have "length (assemble_caption F ?p ?cs ?u) = 46 + P + B + N + L"
    unfolding length_assemble_caption P_def B_def N_def L_def by simp
  moreover have "46 + P + B + N + L \<le> 1024"
    using 1 2 3 by linarith
  ultimately show ?thesis by (simp only: cap)
qed

lemma caption_untruncated_le:
  assumes F: "length F \<le> 474" and tr: "\<not> isTruncated F p u cs" and k: "length cs \<le> 1"
  shows "length (caption_of F p u cs) \<le> 1024"
proof -
  have cap: "caption_of F p u cs = assemble_caption F p cs u"
    using tr by (simp add: caption_of_def)
  have "0 + length cs \<le> 9" using k by simp
  then have blocks: "length (concat (map (\<lambda>(i, c). preview_char_block i c) (enumerate 0 cs)))
       \<le> sum_list (map length cs) + 27 * length cs"
    by (rule preview_blocks_le)
  have tot: "int (length p + sum_list (map length cs) + length u) \<le> 919 - int (length F)"
    using tr F by (simp add: isTruncated_def totalLen_def foldl_len availableChars_small_footer)
  define B where "B = length (concat (map (\<lambda>(i, c). preview_char_block i c) (enumerate 0 cs)))"
  define N where "N = (if u \<noteq> [] then 23 + length u else 0)"
  define T where "T = sum_list (map length cs)"
  have 1: "int (length p + T + length u) \<le> 919 - int (length F)"
    using tot unfolding T_def .
  have 2: "B \<le> T + 27 * length cs"
    using blocks unfolding B_def T_def .
  have 3: "N \<le> 23 + length u"
    unfolding N_def by simp
  have "length (assemble_caption F p cs u) = 46 + length p + B + N + length F"
    unfolding length_assemble_caption B_def N_def by simp
  moreover have "46 + length p + B + N + length F \<le> 1024"
    using 1 2 3 k by linarith
  ultimately show ?thesis by (simp only: cap)
qed

text \<open>
  Where the budget of 1024 is kept: the footer has at most 474 code units (the escaped
  sampler, steps and seed together at most 434), and either the content was cut or
  there is at most one character prompt.
\<close>

lemma caption_within_budget:
  assumes "length samplerStr + length stepsStr + length seedStr \<le> 434"
      and "needsSecondMessage (render_strings (footerStr samplerStr stepsStr seedStr)
                                  rawPrompt rawUc rawChars)
           \<or> length rawChars \<le> 1"
  shows "length (caption (render_strings (footerStr samplerStr stepsStr seedStr)
                            rawPrompt rawUc rawChars)) \<le> 1024"
proof -
  let ?F = "footerStr samplerStr stepsStr seedStr"
  have F: "length ?F \<le> 474" using assms(1) by (simp add: length_footerStr)
  show ?thesis
  proof (cases "isTruncated ?F rawPrompt rawUc rawChars")
    case True
    with F show ?thesis by (simp add: render_strings_def caption_truncated_le)
  next
    case False
    then have "length rawChars \<le> 1" using assms(2) by (simp add: render_strings_def)
    with F False show ?thesis by (simp add: render_strings_def caption_untruncated_le)
  qed
qed


lemma caption_within_budget_example:
  "length (asc ''Euler'') + length (asc ''28'') + length (asc ''42'') \<le> 434
   \<and> needsSecondMessage (render_strings (footerStr (asc ''Euler'') (asc ''28'') (asc ''42''))
        (replicate 5000 0x61) (replicate 900 0x62) (replicate 50 (replicate 1000 0x63)))
   \<and> length (caption (render_strings (footerStr (asc ''Euler'') (asc ''28'') (asc ''42''))
        (replicate 5000 0x61) (replicate 900 0x62) (replicate 50 (replicate 1000 0x63)))) \<le> 1024"
proof -
  have h1: "length (asc ''Euler'') + length (asc ''28'') + length (asc ''42'') \<le> 434"
    by (simp add: length_asc)
  have h2: "needsSecondMessage (render_strings (footerStr (asc ''Euler'') (asc ''28'') (asc ''42''))
        (replicate 5000 0x61) (replicate 900 0x62) (replicate 50 (replicate 1000 0x63)))"
    by (simp add: render_strings_def isTruncated_def totalLen_def foldl_len availableChars_def
          Let_def MAX_CAPTION_def length_headerStr length_footerStr length_asc sum_list_replicate)
  from caption_within_budget [OF h1 disjI1 [OF h2]] h1 h2 show ?thesis by blast
qed

lemma escape_chars_plain: "c \<notin> md_special \<Longrightarrow> escape_chars (replicate n c) = replicate n c"
  by (induction n) (simp_all add: escape_chars_def)

lemma letter_not_special: "(0x61 :: jschar) \<notin> md_special"
  by (simp add: md_special_def asc_Cons asc_Nil)

lemma escape_chars_NA: "escape_chars (asc ''N/A'') = asc ''N/A''"
  by (simp add: escape_chars_def md_special_def asc_Cons asc_Nil)

text \<open>
  The footer is never cut: a sampler name of 1000 letters, and nothing else, gives a
  caption of 1092 code units.
\<close>

lemma caption_long_sampler:
  "render ascii_platform (info0 \<lparr> sampler := JStr (replicate 1000 0x61) \<rparr>)
     = Inr (render_strings (footerStr (replicate 1000 0x61) (asc ''N/A'') (asc ''N/A'')) [] [] [])
   \<and> length (caption (render_strings
        (footerStr (replicate 1000 0x61) (asc ''N/A'') (asc ''N/A'')) [] [] [])) = 1092"
proof -
  have ne: "replicate 1000 (0x61 :: jschar) \<noteq> []" by simp
  have 1: "render ascii_platform (info0 \<lparr> sampler := JStr (replicate 1000 0x61) \<rparr>)
     = Inr (render_strings (footerStr (replicate 1000 0x61) (asc ''N/A'') (asc ''N/A'')) [] [] [])"
    using ne
    by (simp add: render_def info0_def js_or_def escapeMd_def as_string_def
          escape_chars_plain letter_not_special escape_chars_NA)
  have "\<not> isTruncated (footerStr (replicate 1000 0x61) (asc ''N/A'') (asc ''N/A'')) [] [] []"
    by (simp add: isTruncated_def totalLen_def availableChars_def Let_def MAX_CAPTION_def
          length_headerStr length_footerStr length_asc)
  then have 2: "length (caption (render_strings
        (footerStr (replicate 1000 0x61) (asc ''N/A'') (asc ''N/A'')) [] [] [])) = 1092"
    by (simp add: render_strings_def caption_of_def length_assemble_caption length_footerStr
          length_asc)
  show ?thesis using 1 2 by (rule conjI)
qed

text \<open>
  Claim C1 fails on the code. With the shortest footer there is (no sampler, steps or
  seed), a prompt of 800 code units, a negative prompt of 50 and two character prompts
  of 10 each, the content is exactly the 870 code units \<open>availableChars\<close> allows,
  nothing is cut, and the caption has 1042 code units: the 80 code units the budget
  sets aside for the layout are fewer than the 21 of the prompt block, the 23 of the
  negative block and the 27 of each character block.
\<close>

theorem caption_over_budget:
  "availableChars (footerStr (asc ''N/A'') (asc ''N/A'') (asc ''N/A'')) = 870
   \<and> totalLen (replicate 800 0x61) (replicate 50 0x62) [replicate 10 0x63, replicate 10 0x64] = 870
   \<and> \<not> needsSecondMessage (render_strings (footerStr (asc ''N/A'') (asc ''N/A'') (asc ''N/A''))
        (replicate 800 0x61) (replicate 50 0x62) [replicate 10 0x63, replicate 10 0x64])
   \<and> length (caption (render_strings (footerStr (asc ''N/A'') (asc ''N/A'') (asc ''N/A''))
        (replicate 800 0x61) (replicate 50 0x62) [replicate 10 0x63, replicate 10 0x64])) = 1042"
proof -
  let ?F = "footerStr (asc ''N/A'') (asc ''N/A'') (asc ''N/A'')"
  let ?cs = "[replicate 10 (0x63 :: jschar), replicate 10 0x64]"
  have av: "availableChars ?F = 870"
    by (simp add: availableChars_def Let_def MAX_CAPTION_def length_headerStr length_footerStr
          length_asc)
  have tot: "totalLen (replicate 800 0x61) (replicate 50 0x62) ?cs = 870"
    by (simp add: totalLen_def)
  have nt: "\<not> isTruncated ?F (replicate 800 0x61) (replicate 50 0x62) ?cs"
    by (simp add: isTruncated_def av tot)
  have nm: "length c = 10 \<Longrightarrow> c \<noteq> more_marker" for c :: jsstring
    using length_more_marker by auto
  have blocks: "length (concat (map (\<lambda>(i, c). preview_char_block i c) (enumerate 0 ?cs))) = 74"
    by (simp add: enumerate_eq_zip upt_rec preview_char_block_def nm length_asc fence_open_def
          fence_close_def length_dec_digit)
  have ne: "replicate 50 (0x62 :: jschar) \<noteq> []" by simp
  have "length (assemble_caption ?F (replicate 800 0x61) ?cs (replicate 50 0x62)) = 1042"
    unfolding length_assemble_caption blocks using ne
    by (simp add: length_footerStr length_asc)
  then show ?thesis using nt av tot by (simp add: render_strings_def caption_of_def)
qed

section \<open>The chunk walk\<close>

lemma bslice_take:
  "b \<le> N \<Longrightarrow> bslice (take N bs) a b = bslice bs a b"
  by (simp add: bslice_def drop_take min_def)

lemma getUint32_take:
  "off + 4 \<le> N \<Longrightarrow> off + 4 \<le> length bs \<Longrightarrow> getUint32 (take N bs) off = getUint32 bs off"
  by (simp add: getUint32_def)


lemma walk_no_text:
  "bs' = take N bs \<Longrightarrow>
   \<forall>k\<in>set (chunk_starts bs off).
      is_text_type (text_decode P (bslice bs (k + 4) (k + 8))) \<longrightarrow> N \<le> k \<Longrightarrow>
   walk P bs' off st = Inr st"
proof (induction P bs' off st rule: walk.induct)
  case (1 P bs' off st)
  show ?case
  proof (cases "int off < int (length bs') - 8")
    case False
    then show ?thesis by (simp add: walk.simps)
  next
    case True
    then have lt: "off + 8 < length bs'" by simp
    then have ltN: "off + 8 < N" and ltb: "off + 8 < length bs"
      using "1.prems"(1) by simp_all
    obtain len where len: "getUint32 bs off = Inr len"
      using ltb by (simp add: getUint32_def)
    have len': "getUint32 bs' off = Inr len"
      using len ltN ltb "1.prems"(1) by (simp add: getUint32_take)
    have cs: "chunk_starts bs off = off # chunk_starts bs (off + (12 + len))"
      using ltb len by (subst chunk_starts.simps) simp
    have "\<not> is_text_type (text_decode P (bslice bs (off + 4) (off + 8)))"
      using "1.prems"(2) ltN unfolding cs by auto
    moreover have "bslice bs' (off + 4) (off + 8) = bslice bs (off + 4) (off + 8)"
      using ltN "1.prems"(1) by (simp add: bslice_take)
    ultimately have step: "chunk_step P bs' off len st = st"
      by (simp add: chunk_step_def)
    have "\<forall>k\<in>set (chunk_starts bs (off + (12 + len))).
      is_text_type (text_decode P (bslice bs (k + 4) (k + 8))) \<longrightarrow> N \<le> k"
      using "1.prems"(2) unfolding cs by simp
    from "1.IH" [OF True len' "1.prems"(1)] this
    have "walk P bs' (off + (12 + len)) (chunk_step P bs' off len st) = Inr (chunk_step P bs' off len st)"
      by simp
    then show ?thesis
      using True len' step by (subst walk.simps) simp
  qed
qed


lemma extract_body_no_text:
  assumes "\<forall>k\<in>set (chunk_starts bs 8).
      is_text_type (text_decode P (bslice bs (k + 4) (k + 8))) \<longrightarrow> N \<le> k"
  shows "extract_body P (take N bs) = Inr None"
  using walk_no_text [OF refl assms, of "(info0, False)"]
  by (simp add: extract_body_def)

text \<open>
  Claim C10. The extractor reads one slice of the file, its first 262144 bytes, and
  what it returns depends on nothing else. A PNG in which every chunk of a text type
  begins at offset 262144 or later yields "no data", whatever those chunks hold.
\<close>

theorem extractor_sees_first_262144_bytes:
  assumes "file_type file = asc ''image/png''"
      and "\<forall>k\<in>set (chunk_starts (file_bytes file) 8).
             is_text_type (text_decode P (bslice (file_bytes file) (k + 4) (k + 8)))
             \<longrightarrow> 262144 \<le> k"
  shows "extractAIPrompt P file = ([Slice 0 262144], Returned None)
       \<and> extractAIPrompt P file
           = extractAIPrompt P (file \<lparr> file_bytes := take 262144 (file_bytes file) \<rparr>)"
proof -
  have "extract_body P (take 262144 (file_bytes file)) = Inr None"
    using assms(2) by (rule extract_body_no_text)
  then show ?thesis
    using assms(1) by (simp add: extractAIPrompt_def bslice_def)
qed

lemma length_far_text_png: "length far_text_png = 262183"
  by (simp add: far_text_png_def png_signature_def description_chunk_def iend_chunk_def)

lemma far_text_png_header: "getUint32 far_text_png 8 = Inr 262124"
  by (simp add: getUint32_def length_far_text_png)
     (simp add: far_text_png_def png_signature_def nth_append)

lemma far_text_png_text: "getUint32 far_text_png 262144 = Inr 15"
  by (simp add: getUint32_def length_far_text_png)
     (simp add: far_text_png_def png_signature_def description_chunk_def nth_append)

lemma far_text_png_iend: "getUint32 far_text_png 262171 = Inr 0"
  by (simp add: getUint32_def length_far_text_png)
     (simp add: far_text_png_def png_signature_def description_chunk_def iend_chunk_def nth_append)

lemma far_text_png_chunks: "chunk_starts far_text_png 8 = [8, 262144, 262171]"
  by (simp add: chunk_starts.simps length_far_text_png far_text_png_header far_text_png_text
        far_text_png_iend)

lemma far_text_png_first_type:
  "text_decode ascii_platform (bslice far_text_png 12 16) = asc ''IDAT''"
  by (simp add: bslice_def far_text_png_def png_signature_def ascii_platform_def asc_Cons asc_Nil)

lemma far_text_png_second_type:
  "text_decode ascii_platform (bslice far_text_png 262148 262152) = asc ''tEXt''"
  by (simp add: bslice_def far_text_png_def png_signature_def description_chunk_def
        ascii_platform_def asc_Cons asc_Nil)


theorem extractor_sees_first_262144_bytes_witness:
  "chunk_starts far_text_png 8 = [8, 262144, 262171]
   \<and> text_decode ascii_platform (bslice far_text_png 12 16) = asc ''IDAT''
   \<and> is_text_type (text_decode ascii_platform (bslice far_text_png 262148 262152))
   \<and> extractAIPrompt ascii_platform \<lparr> file_type = asc ''image/png'', file_bytes = far_text_png \<rparr>
       = ([Slice 0 262144], Returned None)"
proof -
  let ?file = "\<lparr> file_type = asc ''image/png'', file_bytes = far_text_png \<rparr>"
  have h1: "file_type ?file = asc ''image/png''" by simp
  have nt: "\<not> is_text_type (asc ''IDAT'')"
    by (simp add: is_text_type_def asc_Cons asc_Nil)
  have h2: "\<forall>k\<in>set (chunk_starts (file_bytes ?file) 8).
             is_text_type (text_decode ascii_platform (bslice (file_bytes ?file) (k + 4) (k + 8)))
             \<longrightarrow> 262144 \<le> k"
    using nt by (simp add: far_text_png_chunks far_text_png_first_type)
  have t: "is_text_type (text_decode ascii_platform (bslice far_text_png 262148 262152))"
    by (simp add: far_text_png_second_type is_text_type_def)
  from extractor_sees_first_262144_bytes [OF h1 h2] far_text_png_chunks far_text_png_first_type t
  show ?thesis by blast
qed























end
